theory Spec2Isabelle
  imports Main "HOL-Library.Word" "HOL-Library.Signed_Division"
begin

section \<open>KernelTalk: the broadcast ring buffer of \<^verbatim>\<open>kerneltalk_mod.c\<close>\<close>

text \<open>
  The module keeps, per inode, one \<^verbatim>\<open>struct kerneltalk_server\<close>: a byte array of
  \<^verbatim>\<open>KERNELTALK_BUF\<close> slots, the write index \<^verbatim>\<open>end\<close> and the list of clients. Every
  client owns a read index \<^verbatim>\<open>offset\<close>. The C type of both indices is \<^verbatim>\<open>int\<close>; they are
  modelled as HOL integers. All values the code computes from indices in
  \<open>[0, KERNELTALK_BUF)\<close> lie strictly between \<open>-KERNELTALK_BUF\<close> and
  \<open>2 * KERNELTALK_BUF\<close>, so no 32-bit arithmetic wraps. The C operator \<^verbatim>\<open>%\<close>
  truncates towards zero and is written \<open>smod\<close>.

  A client object is named by its address \<open>cnt\<close> (a natural number); the field
  \<^verbatim>\<open>cnt->offset\<close> is read from the store \<open>offset srv cnt\<close>. The linked list
  \<^verbatim>\<open>srv->client_list\<close> is the list of those addresses in iteration order
  (\<^verbatim>\<open>list_add\<close> inserts at the head).

  The list of servers, the inode of a server and the two wait queues are left out: the
  functions below are those that work on one server, and waking sleepers changes no
  data.
\<close>

subsection \<open>Data\<close>

type_synonym byte = "8 word"

definition KERNELTALK_BUF :: int where
  "KERNELTALK_BUF = 2048"

definition DIST :: "int \<Rightarrow> int \<Rightarrow> int" where
  "DIST a b = (if a \<le> b then b - a else KERNELTALK_BUF + b - a)"

record kerneltalk_server =
  client_list :: "nat list"
  offset :: "nat \<Rightarrow> int"
  buffer :: "byte list"
  srv_end :: int

datatype error = EAGAIN | ERESTARTSYS | ENOMEM

text \<open>
  What a call of \<^verbatim>\<open>read\<close> or \<^verbatim>\<open>write\<close> does: it returns a byte count, it fails with an
  error code, or it sleeps on the wait queue (\<^verbatim>\<open>wait_event_interruptible\<close> with a false
  condition and no signal pending) and runs its loop again when woken.
\<close>

datatype outcome = Returned int | Failed error | Asleep

subsection \<open>Servers and clients\<close>

text \<open>
  \<^verbatim>\<open>create_server\<close>: \<^verbatim>\<open>kmalloc\<close> does not clear memory, so the buffer starts with
  whatever \<open>mem\<close> holds; \<^verbatim>\<open>end\<close> is 0 and the client list is empty. The argument
  \<open>offs\<close> is the content of the client store (no client object exists yet).
\<close>

definition create_server :: "byte list \<Rightarrow> (nat \<Rightarrow> int) \<Rightarrow> kerneltalk_server" where
  "create_server mem offs =
     \<lparr>client_list = [], offset = offs, buffer = mem, srv_end = 0\<rparr>"

fun blocking_offset_loop :: "nat list \<Rightarrow> kerneltalk_server \<Rightarrow> int \<Rightarrow> int \<Rightarrow> int" where
  "blocking_offset_loop [] srv maxunread off = off"
| "blocking_offset_loop (cnt # cnts) srv maxunread off =
     (if DIST (offset srv cnt) (srv_end srv) > maxunread
      then blocking_offset_loop cnts srv (DIST (offset srv cnt) (srv_end srv)) (offset srv cnt)
      else blocking_offset_loop cnts srv maxunread off)"

definition blocking_offset :: "kerneltalk_server \<Rightarrow> int" where
  "blocking_offset srv = blocking_offset_loop (client_list srv) srv 0 (srv_end srv)"

definition room_to_write :: "kerneltalk_server \<Rightarrow> int" where
  "room_to_write srv =
     (let maxidx = (blocking_offset srv + KERNELTALK_BUF - 1) smod KERNELTALK_BUF
      in DIST (srv_end srv) maxidx)"

text \<open>
  \<^verbatim>\<open>create_client\<close>: \<open>cnt\<close> is the address \<^verbatim>\<open>kmalloc\<close> returns, \<open>None\<close> when the
  allocation fails (the C returns \<^verbatim>\<open>NULL\<close> and changes nothing).
\<close>

definition create_client :: "nat option \<Rightarrow> kerneltalk_server \<Rightarrow> nat option \<times> kerneltalk_server" where
  "create_client alloc srv =
     (case alloc of
        None \<Rightarrow> (None, srv)
      | Some cnt \<Rightarrow>
          (Some cnt, srv\<lparr>offset := (offset srv)(cnt := srv_end srv),
                         client_list := cnt # client_list srv\<rparr>))"

text \<open>
  \<^verbatim>\<open>check_free_server\<close> frees a server without clients: \<open>None\<close>.
\<close>

definition check_free_server :: "kerneltalk_server \<Rightarrow> kerneltalk_server option" where
  "check_free_server srv = (if client_list srv = [] then None else Some srv)"

text \<open>
  The channel side of \<^verbatim>\<open>kerneltalk_open\<close>: \<open>srv\<close> is the server \<^verbatim>\<open>get_server\<close> returned
  for the inode, an existing one or the result of \<open>create_server\<close>. The call returns
  \<^verbatim>\<open>SUCCESS\<close> (0), or \<^verbatim>\<open>-ENOMEM\<close> after \<^verbatim>\<open>check_free_server\<close> when no client could be
  allocated.
\<close>

definition kerneltalk_open :: "nat option \<Rightarrow> kerneltalk_server
                               \<Rightarrow> outcome \<times> kerneltalk_server option" where
  "kerneltalk_open alloc srv =
     (case create_client alloc srv of
        (None, srv') \<Rightarrow> (Failed ENOMEM, check_free_server srv')
      | (Some cnt, srv') \<Rightarrow> (Returned 0, Some srv'))"

text \<open>
  The channel side of \<^verbatim>\<open>kerneltalk_flush\<close>: with \<^verbatim>\<open>f_count\<close> other than 1 nothing
  happens; otherwise the client is unlinked (\<^verbatim>\<open>list_del\<close>) and \<^verbatim>\<open>check_free_server\<close>
  frees the server when the list is empty.
\<close>

definition kerneltalk_flush :: "int \<Rightarrow> nat \<Rightarrow> kerneltalk_server \<Rightarrow> kerneltalk_server option" where
  "kerneltalk_flush f_count cnt srv =
     (if f_count \<noteq> 1 then Some srv
      else check_free_server (srv\<lparr>client_list := remove1 cnt (client_list srv)\<rparr>))"

subsection \<open>Read\<close>

text \<open>
  The copy loop of \<^verbatim>\<open>kerneltalk_read\<close>; \<open>usrbuf\<close> collects the bytes handed to
  \<^verbatim>\<open>put_user\<close>, \<open>len\<close> is the remaining \<^verbatim>\<open>length\<close>.
\<close>

fun read_loop :: "nat \<Rightarrow> nat \<Rightarrow> byte list \<Rightarrow> int \<Rightarrow> kerneltalk_server
                  \<Rightarrow> byte list \<times> int \<times> kerneltalk_server" where
  "read_loop cnt 0 usrbuf bytes_read srv = (usrbuf, bytes_read, srv)"
| "read_loop cnt (Suc len) usrbuf bytes_read srv =
     (if DIST (offset srv cnt) (srv_end srv) > 0
      then read_loop cnt len (usrbuf @ [buffer srv ! nat (offset srv cnt)]) (bytes_read + 1)
             (srv\<lparr>offset := (offset srv)(cnt := (offset srv cnt + 1) smod KERNELTALK_BUF)\<rparr>)
      else (usrbuf, bytes_read, srv))"

text \<open>
  \<open>nonblock\<close> is \<^verbatim>\<open>filp->f_flags & O_NONBLOCK\<close>, \<open>signal\<close> says whether a signal is
  pending when the call reaches \<^verbatim>\<open>wait_event_interruptible\<close>. The result is the return
  value, the bytes stored to user memory and the server afterwards.
\<close>

definition kerneltalk_read :: "bool \<Rightarrow> bool \<Rightarrow> nat \<Rightarrow> nat \<Rightarrow> kerneltalk_server
                               \<Rightarrow> outcome \<times> byte list \<times> kerneltalk_server" where
  "kerneltalk_read nonblock signal cnt len srv =
     (if DIST (offset srv cnt) (srv_end srv) = 0
      then (if nonblock then (Failed EAGAIN, [], srv)
            else if signal then (Failed ERESTARTSYS, [], srv)
            else (Asleep, [], srv))
      else (case read_loop cnt len [] 0 srv of
              (usrbuf, bytes_read, srv') \<Rightarrow> (Returned bytes_read, usrbuf, srv')))"

subsection \<open>Write\<close>

text \<open>
  The copy loop of \<^verbatim>\<open>kerneltalk_write\<close>; the list is the user memory from \<^verbatim>\<open>usrbuf\<close>
  on, its length is \<^verbatim>\<open>amt\<close>.
\<close>

fun write_loop :: "int \<Rightarrow> byte list \<Rightarrow> int \<Rightarrow> kerneltalk_server \<Rightarrow> int \<times> kerneltalk_server" where
  "write_loop room [] bytes_written srv = (bytes_written, srv)"
| "write_loop room (b # usrbuf) bytes_written srv =
     (if room > 0
      then write_loop (room - 1) usrbuf (bytes_written + 1)
             (srv\<lparr>buffer := (buffer srv)[nat (srv_end srv) := b],
                  srv_end := (srv_end srv + 1) smod KERNELTALK_BUF\<rparr>)
      else (bytes_written, srv))"

definition kerneltalk_write :: "bool \<Rightarrow> bool \<Rightarrow> byte list \<Rightarrow> kerneltalk_server
                                \<Rightarrow> outcome \<times> kerneltalk_server" where
  "kerneltalk_write nonblock signal usrbuf srv =
     (let room = room_to_write srv in
      if room = 0
      then (if nonblock then (Failed EAGAIN, srv)
            else if signal then (Failed ERESTARTSYS, srv)
            else (Asleep, srv))
      else (case write_loop room usrbuf 0 srv of
              (bytes_written, srv') \<Rightarrow> (Returned bytes_written, srv')))"

subsection \<open>Well-formed servers and what a client has not read yet\<close>

text \<open>
  Indices stay inside the array: \<^verbatim>\<open>end\<close> starts at 0, a new client starts at \<^verbatim>\<open>end\<close>,
  and both only move by \<^verbatim>\<open>(i + 1) % KERNELTALK_BUF\<close>. A well-formed server has its
  indices in \<open>[0, KERNELTALK_BUF)\<close>, a buffer of \<open>KERNELTALK_BUF\<close> bytes, and no
  client linked twice.
\<close>

definition in_range :: "int \<Rightarrow> bool" where
  "in_range i \<longleftrightarrow> 0 \<le> i \<and> i < KERNELTALK_BUF"

definition server_ok :: "kerneltalk_server \<Rightarrow> bool" where
  "server_ok srv \<longleftrightarrow>
     in_range (srv_end srv) \<and> list_all (\<lambda>cnt. in_range (offset srv cnt)) (client_list srv) \<and>
     int (length (buffer srv)) = KERNELTALK_BUF \<and> distinct (client_list srv)"

text \<open>The unread count of a client: \<^verbatim>\<open>DIST(cnt->offset, srv->end)\<close>.\<close>

definition unread :: "kerneltalk_server \<Rightarrow> nat \<Rightarrow> int" where
  "unread srv cnt = DIST (offset srv cnt) (srv_end srv)"

text \<open>The unread bytes of a client, oldest first: the slots from its offset up to \<^verbatim>\<open>end\<close>.\<close>

definition unread_bytes :: "kerneltalk_server \<Rightarrow> nat \<Rightarrow> byte list" where
  "unread_bytes srv cnt =
     map (\<lambda>k. buffer srv ! nat ((offset srv cnt + int k) mod KERNELTALK_BUF))
         [0..<nat (unread srv cnt)]"

text \<open>
  Position \<open>i\<close> of the client list holds a client with the largest unread count, and
  no earlier position does.
\<close>

definition first_max :: "kerneltalk_server \<Rightarrow> nat list \<Rightarrow> nat \<Rightarrow> bool" where
  "first_max srv cnts i \<longleftrightarrow>
     i < length cnts \<and>
     (\<forall>j<length cnts. unread srv (cnts ! j) \<le> unread srv (cnts ! i)) \<and>
     (\<forall>j<i. unread srv (cnts ! j) < unread srv (cnts ! i))"

text \<open>The bytes a write call has stored, read off its return value.\<close>

fun wrote :: "outcome \<Rightarrow> byte list \<Rightarrow> byte list" where
  "wrote (Returned n) usrbuf = take (nat n) usrbuf"
| "wrote r usrbuf = []"

subsection \<open>Sequences of calls\<close>

text \<open>
  The calls user space makes on one channel. \<open>Join cnt\<close> is an \<^verbatim>\<open>open\<close> whose
  \<^verbatim>\<open>kmalloc\<close> returned \<open>cnt\<close> (a failed \<^verbatim>\<open>open\<close> leaves a server with clients as it
  was), \<open>Leave cnt\<close> the \<^verbatim>\<open>flush\<close> of the last descriptor of
  that client. The kernel hands out only memory that is not in use and calls
  \<^verbatim>\<open>read\<close> and \<^verbatim>\<open>flush\<close> only on open files: \<open>allowed\<close>. A history is a
  sequence of whole calls; a sleeping call is one that changed nothing and is called
  again.
\<close>

datatype op =
    Join nat
  | Leave nat
  | Read bool bool nat nat
  | Write bool bool "byte list"

fun allowed :: "op \<Rightarrow> kerneltalk_server \<Rightarrow> bool" where
  "allowed (Join cnt) srv \<longleftrightarrow> cnt \<notin> set (client_list srv)"
| "allowed (Leave cnt) srv \<longleftrightarrow> cnt \<in> set (client_list srv)"
| "allowed (Read nonblock signal cnt len) srv \<longleftrightarrow> cnt \<in> set (client_list srv)"
| "allowed (Write nonblock signal usrbuf) srv \<longleftrightarrow> True"

fun exec :: "op \<Rightarrow> kerneltalk_server \<Rightarrow> kerneltalk_server option" where
  "exec (Join cnt) srv = snd (kerneltalk_open (Some cnt) srv)"
| "exec (Leave cnt) srv = kerneltalk_flush 1 cnt srv"
| "exec (Read nonblock signal cnt len) srv = Some (snd (snd (kerneltalk_read nonblock signal cnt len srv)))"
| "exec (Write nonblock signal usrbuf) srv = Some (snd (kerneltalk_write nonblock signal usrbuf srv))"

text \<open>The bytes a call stored in the buffer, and the bytes it handed to client \<open>c\<close>.\<close>

fun stored :: "op \<Rightarrow> kerneltalk_server \<Rightarrow> byte list" where
  "stored (Write nonblock signal usrbuf) srv =
     wrote (fst (kerneltalk_write nonblock signal usrbuf srv)) usrbuf"
| "stored x srv = []"

fun handed :: "nat \<Rightarrow> op \<Rightarrow> kerneltalk_server \<Rightarrow> byte list" where
  "handed c (Read nonblock signal cnt len) srv =
     (if cnt = c then fst (snd (kerneltalk_read nonblock signal cnt len srv)) else [])"
| "handed c x srv = []"

text \<open>
  A run ends with \<open>None\<close> when a call is not allowed or when the last client left and
  the server was freed.
\<close>

fun run :: "op list \<Rightarrow> kerneltalk_server \<Rightarrow> kerneltalk_server option" where
  "run [] srv = Some srv"
| "run (x # xs) srv =
     (if allowed x srv
      then (case exec x srv of None \<Rightarrow> None | Some srv' \<Rightarrow> run xs srv')
      else None)"

fun accepted :: "op list \<Rightarrow> kerneltalk_server \<Rightarrow> byte list" where
  "accepted [] srv = []"
| "accepted (x # xs) srv =
     stored x srv @ (case exec x srv of None \<Rightarrow> [] | Some srv' \<Rightarrow> accepted xs srv')"

fun delivered :: "nat \<Rightarrow> op list \<Rightarrow> kerneltalk_server \<Rightarrow> byte list" where
  "delivered c [] srv = []"
| "delivered c (x # xs) srv =
     handed c x srv @ (case exec x srv of None \<Rightarrow> [] | Some srv' \<Rightarrow> delivered c xs srv')"


subsection \<open>Locks\<close>

text \<open>
  The three locks of the module: the global \<^verbatim>\<open>server_list_lock\<close>, and per server the
  mutex \<^verbatim>\<open>client_list_lock\<close> and the read-write semaphore \<^verbatim>\<open>buffer_lock\<close>. An
  \<open>Acquire\<close> is a \<^verbatim>\<open>mutex_lock_interruptible\<close>, \<^verbatim>\<open>down_read\<close> or \<^verbatim>\<open>down_write\<close>, a
  \<open>Release\<close> a \<^verbatim>\<open>mutex_unlock\<close>, \<^verbatim>\<open>up_read\<close> or \<^verbatim>\<open>up_write\<close>. The code ignores the
  result of \<^verbatim>\<open>mutex_lock_interruptible\<close>; the traces are those of calls in which the mutex
  is obtained.
\<close>

datatype lock = Server_list_lock | Client_list_lock | Buffer_lock

datatype lock_event = Acquire lock | Release lock

text \<open>
  The lock calls of each function in program order, along the path its arguments select.
  \<^verbatim>\<open>check_free_server\<close> does not unlock when it frees the server. In
  \<^verbatim>\<open>kerneltalk_write\<close> a blocking call evaluates \<^verbatim>\<open>room_to_write\<close> again after
  \<^verbatim>\<open>up_write\<close>, as the condition of \<^verbatim>\<open>wait_event_interruptible\<close>; the trace shows one
  such evaluation, each one takes and releases the client-list lock with no other lock
  held. In \<^verbatim>\<open>kerneltalk_open\<close>, \<open>got_server\<close> says whether \<^verbatim>\<open>get_server\<close> returned a
  server.
\<close>

definition room_to_write_locks :: "lock_event list" where
  "room_to_write_locks = [Acquire Client_list_lock, Release Client_list_lock]"

definition create_client_locks :: "nat option \<Rightarrow> lock_event list" where
  "create_client_locks alloc =
     (case alloc of None \<Rightarrow> [] | Some cnt \<Rightarrow> [Acquire Client_list_lock, Release Client_list_lock])"

definition check_free_server_locks :: "kerneltalk_server \<Rightarrow> lock_event list" where
  "check_free_server_locks srv =
     Acquire Client_list_lock # (if client_list srv = [] then [] else [Release Client_list_lock])"

definition kerneltalk_open_locks :: "bool \<Rightarrow> nat option \<Rightarrow> kerneltalk_server \<Rightarrow> lock_event list" where
  "kerneltalk_open_locks got_server alloc srv =
     Acquire Server_list_lock #
     (if \<not> got_server then [Release Server_list_lock]
      else create_client_locks alloc @
           (case alloc of
              Some cnt \<Rightarrow> [Release Server_list_lock]
            | None \<Rightarrow> check_free_server_locks srv @ [Release Server_list_lock]))"

definition kerneltalk_flush_locks :: "int \<Rightarrow> nat \<Rightarrow> kerneltalk_server \<Rightarrow> lock_event list" where
  "kerneltalk_flush_locks f_count cnt srv =
     (if f_count \<noteq> 1 then []
      else [Acquire Client_list_lock, Release Client_list_lock, Acquire Server_list_lock] @
           check_free_server_locks (srv\<lparr>client_list := remove1 cnt (client_list srv)\<rparr>) @
           [Release Server_list_lock])"

definition kerneltalk_read_locks :: "bool \<Rightarrow> bool \<Rightarrow> nat \<Rightarrow> kerneltalk_server \<Rightarrow> lock_event list" where
  "kerneltalk_read_locks nonblock signal cnt srv =
     Acquire Buffer_lock #
     (if DIST (offset srv cnt) (srv_end srv) = 0 then [Release Buffer_lock]
      else [Release Buffer_lock])"

definition kerneltalk_poll_locks :: "lock_event list" where
  "kerneltalk_poll_locks = [Acquire Buffer_lock] @ room_to_write_locks @ [Release Buffer_lock]"

definition kerneltalk_write_locks :: "bool \<Rightarrow> bool \<Rightarrow> kerneltalk_server \<Rightarrow> lock_event list" where
  "kerneltalk_write_locks nonblock signal srv =
     [Acquire Buffer_lock] @ room_to_write_locks @
     (if room_to_write srv = 0
      then Release Buffer_lock # (if nonblock then [] else room_to_write_locks)
      else [Release Buffer_lock])"

text \<open>
  \<open>nested held es\<close> lists the pairs \<open>(h, l)\<close> such that \<open>l\<close> is acquired while
  \<open>h\<close> is held. The order the specification documents is directory, then registry,
  then buffer: \<open>documented_order\<close>.
\<close>

fun nested :: "lock list \<Rightarrow> lock_event list \<Rightarrow> (lock \<times> lock) list" where
  "nested held [] = []"
| "nested held (Acquire l # es) = map (\<lambda>h. (h, l)) held @ nested (l # held) es"
| "nested held (Release l # es) = nested (remove1 l held) es"

fun lock_rank :: "lock \<Rightarrow> nat" where
  "lock_rank Server_list_lock = 0"
| "lock_rank Client_list_lock = 1"
| "lock_rank Buffer_lock = 2"

definition documented_order :: "lock_event list \<Rightarrow> bool" where
  "documented_order es = list_all (\<lambda>(h, l). lock_rank h < lock_rank l) (nested [] es)"

subsection \<open>Example servers\<close>

text \<open>
  \<open>ex_srv\<close>: client 11 joined at index 3, two bytes were written, then client 12
  joined. \<open>ex_full\<close>: client 11 is \<open>KERNELTALK_BUF - 1\<close> bytes behind, client 12 has
  read everything.
\<close>

definition ex_mem :: "byte list" where
  "ex_mem = replicate 2048 0"

definition ex_srv :: kerneltalk_server where
  "ex_srv = \<lparr>client_list = [12, 11], offset = (\<lambda>_. 0)(11 := 3, 12 := 5), buffer = ex_mem[3 := 10, 4 := 11],
            srv_end = 5\<rparr>"

definition ex_full :: kerneltalk_server where
  "ex_full = \<lparr>client_list = [12, 11], offset = (\<lambda>_. 0)(11 := 6, 12 := 5), buffer = ex_mem, srv_end = 5\<rparr>"

text \<open>
  \<open>ex_joined\<close> is reached from a new server by \<open>ex_ops\<close>. \<open>ex_written\<close> is
  \<open>ex_srv\<close> after client 13 joined and \<open>ex_Bs\<close> was written.
\<close>

definition ex_ops :: "op list" where
  "ex_ops = [Join 11, Write True False [10, 11], Join 12]"

definition ex_joined :: kerneltalk_server where
  "ex_joined = \<lparr>client_list = [12, 11], offset = (\<lambda>_. 0)(11 := 0, 12 := 2),
                buffer = ex_mem[0 := 10, 1 := 11], srv_end = 2\<rparr>"

definition ex_Bs :: "byte list list" where
  "ex_Bs = [[7, 8], [9]]"

definition ex_written :: kerneltalk_server where
  "ex_written = \<lparr>client_list = [13, 12, 11], offset = (\<lambda>_. 0)(11 := 3, 12 := 5, 13 := 5),
                 buffer = ex_mem[3 := 10, 4 := 11, 5 := 7, 6 := 8, 7 := 9], srv_end = 8\<rparr>"

text \<open>
  \<open>ex_lag\<close> is reached by \<open>ex_lag_ops\<close>: clients 11 and 12 join, five bytes are
  written, client 12 reads one. \<open>ex_fill\<close> writes as many bytes as \<open>ex_srv\<close> has room
  for.
\<close>

definition ex_lag :: kerneltalk_server where
  "ex_lag = \<lparr>client_list = [12, 11], offset = (\<lambda>_. 0)(11 := 0, 12 := 1),
             buffer = ex_mem[0 := 1, 1 := 2, 2 := 3, 3 := 4, 4 := 5], srv_end = 5\<rparr>"

definition ex_lag_ops :: "op list" where
  "ex_lag_ops = [Join 11, Join 12, Write True False [1, 2, 3, 4, 5], Read True False 12 1]"

definition ex_fill :: "op list" where
  "ex_fill = [Write True False (replicate 2045 9)]"



section \<open>Properties\<close>

lemma kerneltalk_open_client [simp]:
  "kerneltalk_open (Some cnt) srv = (Returned 0, Some (snd (create_client (Some cnt) srv)))"
  by (simp add: kerneltalk_open_def create_client_def)

lemma KERNELTALK_BUF_gt1: "1 < KERNELTALK_BUF"
  by (simp add: KERNELTALK_BUF_def)

lemma smod_nonneg_eq_mod: "0 \<le> (a::int) \<Longrightarrow> 0 < b \<Longrightarrow> a smod b = a mod b"
  by (simp add: smod_int_alt_def sgn_if)

lemma mod_range2:
  "0 \<le> (x::int) \<Longrightarrow> x < 2 * n \<Longrightarrow> x mod n = (if x < n then x else x - n)"
proof (cases "x < n")
  case True
  assume "0 \<le> x" with True show ?thesis by simp
next
  case False
  assume "x < 2 * n"
  with False have a: "0 \<le> x - n" "x - n < n" by linarith+
  have "x mod n = (x - n) mod n" by simp
  also have "\<dots> = x - n" using a by (rule mod_pos_pos_trivial)
  finally show ?thesis using False by simp
qed

lemma DIST_mod: "in_range a \<Longrightarrow> in_range b \<Longrightarrow> DIST a b = (b - a) mod KERNELTALK_BUF"
proof (cases "a \<le> b")
  case True
  assume "in_range a" "in_range b"
  with True show ?thesis by (simp add: DIST_def in_range_def)
next
  case False
  assume r: "in_range a" "in_range b"
  have "(b - a) mod KERNELTALK_BUF = (b - a + KERNELTALK_BUF) mod KERNELTALK_BUF"
    by simp
  also have "\<dots> = b - a + KERNELTALK_BUF"
    by (rule mod_pos_pos_trivial) (use r False in \<open>auto simp: in_range_def\<close>)
  finally show ?thesis using False by (simp add: DIST_def)
qed

lemma DIST_bounds: "in_range a \<Longrightarrow> in_range b \<Longrightarrow> 0 \<le> DIST a b \<and> DIST a b < KERNELTALK_BUF"
  unfolding DIST_def in_range_def by auto

lemma DIST_zero_iff: "in_range a \<Longrightarrow> in_range b \<Longrightarrow> DIST a b = 0 \<longleftrightarrow> a = b"
  unfolding DIST_def in_range_def by auto

lemma DIST_self: "DIST a a = 0"
  by (simp add: DIST_def)

lemma step_in_range: "in_range a \<Longrightarrow> in_range ((a + 1) smod KERNELTALK_BUF)"
  unfolding in_range_def using KERNELTALK_BUF_gt1 by (simp add: smod_nonneg_eq_mod)

lemma step_cases: "in_range a \<Longrightarrow> (a + 1) smod KERNELTALK_BUF = (if a + 1 = KERNELTALK_BUF then 0 else a + 1)"
  unfolding in_range_def using KERNELTALK_BUF_gt1 by (simp add: smod_nonneg_eq_mod)

lemma pred_cases: "in_range a \<Longrightarrow> (a + KERNELTALK_BUF - 1) smod KERNELTALK_BUF = (if a = 0 then KERNELTALK_BUF - 1 else a - 1)"
  unfolding in_range_def using KERNELTALK_BUF_gt1 
  by (simp add: smod_nonneg_eq_mod mod_range2)

lemma room_formula: "in_range a \<Longrightarrow> in_range e \<Longrightarrow>
   DIST e ((a + KERNELTALK_BUF - 1) smod KERNELTALK_BUF) = KERNELTALK_BUF - 1 - DIST a e"
  by (auto simp: pred_cases DIST_def in_range_def)


lemma first_max_Cons_head:
  assumes "\<forall>c\<in>set cnts. unread srv c \<le> unread srv cnt"
  shows "first_max srv (cnt # cnts) 0"
  using assms by (auto simp: first_max_def nth_Cons split: nat.splits)

lemma first_max_Cons_tail:
  assumes "first_max srv cnts i" "unread srv cnt < unread srv (cnts ! i)"
  shows "first_max srv (cnt # cnts) (Suc i)"
  using assms unfolding first_max_def
  by (auto simp: nth_Cons less_Suc_eq_0_disj split: nat.splits)

lemma loop_none_above:
  "\<forall>c\<in>set cnts. unread srv c \<le> m \<Longrightarrow> blocking_offset_loop cnts srv m off = off"
  by (induction cnts) (auto simp: unread_def)

lemma loop_some_above:
  "\<exists>c\<in>set cnts. m < unread srv c \<Longrightarrow>
   \<exists>i. first_max srv cnts i \<and> m < unread srv (cnts ! i) \<and>
       blocking_offset_loop cnts srv m off = offset srv (cnts ! i)"
proof (induction cnts arbitrary: m off)
  case Nil
  then show ?case by simp
next
  case (Cons cnt cnts)
  show ?case
  proof (cases "m < unread srv cnt")
    case True
    note above = this
    show ?thesis
    proof (cases "\<exists>c\<in>set cnts. unread srv cnt < unread srv c")
      case True
      from Cons.IH [OF True] obtain i where i: "first_max srv cnts i"
        "unread srv cnt < unread srv (cnts ! i)"
        "blocking_offset_loop cnts srv (unread srv cnt) (offset srv cnt) = offset srv (cnts ! i)"
        by blast
      from i(1,2) have "first_max srv (cnt # cnts) (Suc i)" by (rule first_max_Cons_tail)
      moreover have "m < unread srv ((cnt # cnts) ! Suc i)" using above i(2) by simp
      moreover have "blocking_offset_loop (cnt # cnts) srv m off = offset srv ((cnt # cnts) ! Suc i)"
        using above i(3) by (simp add: unread_def)
      ultimately show ?thesis by blast
    next
      case False
      then have le: "\<forall>c\<in>set cnts. unread srv c \<le> unread srv cnt" by auto
      then have "first_max srv (cnt # cnts) 0" by (rule first_max_Cons_head)
      moreover have "blocking_offset_loop (cnt # cnts) srv m off = offset srv ((cnt # cnts) ! 0)"
        using above loop_none_above [OF le] by (simp add: unread_def)
      ultimately show ?thesis using above by auto
    qed
  next
    case False
    with Cons.prems have "\<exists>c\<in>set cnts. m < unread srv c" by auto
    from Cons.IH [OF this] obtain i where i: "first_max srv cnts i"
        "m < unread srv (cnts ! i)"
        "blocking_offset_loop cnts srv m off = offset srv (cnts ! i)"
      by blast
    from False i(2) have "unread srv cnt < unread srv (cnts ! i)" by simp
    with i(1) have "first_max srv (cnt # cnts) (Suc i)" by (rule first_max_Cons_tail)
    moreover have "blocking_offset_loop (cnt # cnts) srv m off = offset srv ((cnt # cnts) ! Suc i)"
      using False i(3) by (simp add: unread_def)
    ultimately show ?thesis using i(2) by auto
  qed
qed

lemma server_ok_end: "server_ok srv \<Longrightarrow> in_range (srv_end srv)"
  by (simp add: server_ok_def)

lemma server_ok_offset: "server_ok srv \<Longrightarrow> cnt \<in> set (client_list srv) \<Longrightarrow> in_range (offset srv cnt)"
  by (simp add: server_ok_def list_all_iff)

lemma unread_bounds:
  "server_ok srv \<Longrightarrow> cnt \<in> set (client_list srv) \<Longrightarrow> 0 \<le> unread srv cnt \<and> unread srv cnt < KERNELTALK_BUF"
  unfolding unread_def by (rule DIST_bounds) (simp_all add: server_ok_offset server_ok_end)

lemma unread_zero_iff:
  "server_ok srv \<Longrightarrow> cnt \<in> set (client_list srv) \<Longrightarrow> unread srv cnt = 0 \<longleftrightarrow> offset srv cnt = srv_end srv"
  unfolding unread_def by (rule DIST_zero_iff) (simp_all add: server_ok_offset server_ok_end)

text \<open>
  Either every client has read everything and \<open>blocking_offset\<close> is \<^verbatim>\<open>end\<close>, or it is
  the offset of the first client with the largest unread count.
\<close>

lemma blocking_offset_cases:
  assumes "server_ok srv"
  shows "(\<forall>c\<in>set (client_list srv). unread srv c = 0) \<and> blocking_offset srv = srv_end srv \<or>
         (\<exists>i. first_max srv (client_list srv) i \<and> 0 < unread srv (client_list srv ! i) \<and>
              blocking_offset srv = offset srv (client_list srv ! i))"
proof (cases "\<exists>c\<in>set (client_list srv). 0 < unread srv c")
  case True
  from loop_some_above [OF True] show ?thesis unfolding blocking_offset_def by blast
next
  case False
  then have le: "\<forall>c\<in>set (client_list srv). unread srv c \<le> 0" by auto
  moreover have "\<forall>c\<in>set (client_list srv). unread srv c = 0"
    using le unread_bounds [OF assms] by fastforce
  ultimately show ?thesis unfolding blocking_offset_def using loop_none_above by blast
qed

lemma blocking_offset_in_range: "server_ok srv \<Longrightarrow> in_range (blocking_offset srv)"
  using blocking_offset_cases [of srv]
  by (auto simp: server_ok_end first_max_def intro!: server_ok_offset nth_mem)

lemma blocking_offset_max:
  assumes "server_ok srv" "cnt \<in> set (client_list srv)"
  shows "unread srv cnt \<le> DIST (blocking_offset srv) (srv_end srv)"
  using blocking_offset_cases [OF assms(1)]
proof
  assume "(\<forall>c\<in>set (client_list srv). unread srv c = 0) \<and> blocking_offset srv = srv_end srv"
  with assms(2) show ?thesis by (simp add: DIST_self)
next
  assume "\<exists>i. first_max srv (client_list srv) i \<and> 0 < unread srv (client_list srv ! i) \<and>
              blocking_offset srv = offset srv (client_list srv ! i)"
  then obtain i where i: "first_max srv (client_list srv) i"
     "blocking_offset srv = offset srv (client_list srv ! i)" by blast
  from assms(2) obtain j where "j < length (client_list srv)" "client_list srv ! j = cnt"
    by (auto simp: in_set_conv_nth)
  with i(1) have "unread srv cnt \<le> unread srv (client_list srv ! i)"
    by (auto simp: first_max_def)
  then show ?thesis by (simp add: i(2) unread_def)
qed

lemma room_to_write_eq:
  "server_ok srv \<Longrightarrow>
   room_to_write srv = KERNELTALK_BUF - 1 - DIST (blocking_offset srv) (srv_end srv)"
  unfolding room_to_write_def Let_def
  by (rule room_formula) (simp_all add: blocking_offset_in_range server_ok_end)

lemma room_to_write_bounds:
  assumes "server_ok srv"
  shows "0 \<le> room_to_write srv \<and> room_to_write srv \<le> KERNELTALK_BUF - 1"
  using DIST_bounds [OF blocking_offset_in_range [OF assms] server_ok_end [OF assms]]
  by (simp add: room_to_write_eq [OF assms])

lemma room_to_write_le:
  "server_ok srv \<Longrightarrow> cnt \<in> set (client_list srv) \<Longrightarrow>
   room_to_write srv \<le> KERNELTALK_BUF - 1 - unread srv cnt"
  using blocking_offset_max [of srv cnt] by (simp add: room_to_write_eq)

lemma room_to_write_no_clients:
  "server_ok srv \<Longrightarrow> client_list srv = [] \<Longrightarrow> room_to_write srv = KERNELTALK_BUF - 1"
  by (simp add: room_to_write_eq blocking_offset_def DIST_self)


lemma length_unread_bytes [simp]: "length (unread_bytes srv cnt) = nat (unread srv cnt)"
  by (simp add: unread_bytes_def)

lemma ring_index:
  assumes "in_range a" "0 \<le> k" "k < KERNELTALK_BUF"
  shows "(a + k) mod KERNELTALK_BUF = (if a + k < KERNELTALK_BUF then a + k else a + k - KERNELTALK_BUF)"
  using assms unfolding in_range_def by (intro mod_range2) auto

lemma ring_index_in_range:
  "in_range a \<Longrightarrow> 0 \<le> k \<Longrightarrow> k < KERNELTALK_BUF \<Longrightarrow> in_range ((a + k) mod KERNELTALK_BUF)"
  by (auto simp: ring_index) (auto simp: in_range_def)

lemma DIST_ring_index:
  assumes "in_range a" "in_range e" "0 \<le> k" "k < KERNELTALK_BUF"
  shows "DIST e ((a + k) mod KERNELTALK_BUF) =
         (if DIST a e \<le> k then k - DIST a e else KERNELTALK_BUF + k - DIST a e)"
  using assms by (auto simp: ring_index) (auto simp: in_range_def DIST_def split: if_splits)

lemma DIST_step_end:
  assumes "in_range a" "in_range e" "DIST a e < KERNELTALK_BUF - 1"
  shows "DIST a ((e + 1) smod KERNELTALK_BUF) = DIST a e + 1"
  using assms by (auto simp: step_cases) (auto simp: in_range_def DIST_def split: if_splits)

lemma DIST_step_offset:
  assumes "in_range a" "in_range e" "0 < DIST a e"
  shows "DIST ((a + 1) smod KERNELTALK_BUF) e = DIST a e - 1"
  using assms by (auto simp: step_cases) (auto simp: in_range_def DIST_def split: if_splits)

lemma DIST_from_step:
  assumes "in_range e" "in_range i" "i \<noteq> e"
  shows "DIST e i = DIST ((e + 1) smod KERNELTALK_BUF) i + 1"
  using assms by (auto simp: step_cases) (auto simp: in_range_def DIST_def split: if_splits)

lemma DIST_step_self:
  assumes "in_range e"
  shows "DIST ((e + 1) smod KERNELTALK_BUF) e = KERNELTALK_BUF - 1"
  using assms KERNELTALK_BUF_gt1 by (auto simp: step_cases) (auto simp: in_range_def DIST_def split: if_splits)


lemma write_loop_client_list: "client_list (snd (write_loop room usrbuf bw srv)) = client_list srv"
  by (induction usrbuf arbitrary: room bw srv) auto

lemma write_loop_offset: "offset (snd (write_loop room usrbuf bw srv)) = offset srv"
  by (induction usrbuf arbitrary: room bw srv) auto

lemma write_loop_length: "length (buffer (snd (write_loop room usrbuf bw srv))) = length (buffer srv)"
  by (induction usrbuf arbitrary: room bw srv) auto

lemma write_loop_count:
  "0 \<le> room \<Longrightarrow> fst (write_loop room usrbuf bw srv) = bw + min room (int (length usrbuf))"
  by (induction usrbuf arbitrary: room bw srv) auto

lemma write_loop_end:
  "0 \<le> room \<Longrightarrow> in_range (srv_end srv) \<Longrightarrow>
   srv_end (snd (write_loop room usrbuf bw srv)) =
     (srv_end srv + min room (int (length usrbuf))) mod KERNELTALK_BUF"
proof (induction usrbuf arbitrary: room bw srv)
  case Nil
  then show ?case by (simp add: in_range_def)
next
  case (Cons b usrbuf)
  show ?case
  proof (cases "0 < room")
    case True
    let ?srv1 = "srv\<lparr>buffer := (buffer srv)[nat (srv_end srv) := b],
                     srv_end := (srv_end srv + 1) smod KERNELTALK_BUF\<rparr>"
    have e1: "srv_end ?srv1 = (srv_end srv + 1) mod KERNELTALK_BUF"
      using Cons.prems(2) KERNELTALK_BUF_gt1 by (simp add: smod_nonneg_eq_mod in_range_def)
    have "in_range (srv_end ?srv1)" using step_in_range [OF Cons.prems(2)] by simp
    with True have "srv_end (snd (write_loop (room - 1) usrbuf (bw + 1) ?srv1)) =
        (srv_end ?srv1 + min (room - 1) (int (length usrbuf))) mod KERNELTALK_BUF"
      by (intro Cons.IH) auto
    also have "\<dots> = (srv_end srv + (1 + min (room - 1) (int (length usrbuf)))) mod KERNELTALK_BUF"
      unfolding e1 by (simp add: mod_add_left_eq add.assoc)
    also have "1 + min (room - 1) (int (length usrbuf)) = min room (int (length (b # usrbuf)))"
      by simp
    finally show ?thesis using True by simp
  next
    case False
    with Cons.prems show ?thesis by (simp add: in_range_def)
  qed
qed

lemma index_in_buffer:
  "in_range i \<Longrightarrow> int (length (buf :: byte list)) = KERNELTALK_BUF \<Longrightarrow> nat i < length buf"
  unfolding in_range_def by linarith

lemma write_loop_buffer:
  "0 \<le> room \<Longrightarrow> room < KERNELTALK_BUF \<Longrightarrow> in_range (srv_end srv) \<Longrightarrow>
   int (length (buffer srv)) = KERNELTALK_BUF \<Longrightarrow> in_range i \<Longrightarrow>
   buffer (snd (write_loop room usrbuf bw srv)) ! nat i =
     (if DIST (srv_end srv) i < min room (int (length usrbuf))
      then usrbuf ! nat (DIST (srv_end srv) i) else buffer srv ! nat i)"
proof (induction usrbuf arbitrary: room bw srv)
  case Nil
  then have "0 \<le> DIST (srv_end srv) i" using DIST_bounds by blast
  with Nil show ?case by simp
next
  case (Cons b usrbuf)
  have d0: "0 \<le> DIST (srv_end srv) i" using DIST_bounds Cons.prems by blast
  show ?case
  proof (cases "0 < room")
    case pos: True
    let ?e1 = "(srv_end srv + 1) smod KERNELTALK_BUF"
    let ?srv1 = "srv\<lparr>buffer := (buffer srv)[nat (srv_end srv) := b], srv_end := ?e1\<rparr>"
    let ?n1 = "min (room - 1) (int (length usrbuf))"
    let ?res = "buffer (snd (write_loop (room - 1) usrbuf (bw + 1) ?srv1)) ! nat i"
    have r1: "in_range ?e1" by (rule step_in_range) (rule Cons.prems)
    have IH: "?res = (if DIST ?e1 i < ?n1 then usrbuf ! nat (DIST ?e1 i) else buffer ?srv1 ! nat i)"
      using Cons.IH [of "room - 1" ?srv1 "bw + 1"] pos Cons.prems(2,4,5) r1 by simp
    have unfold: "buffer (snd (write_loop room (b # usrbuf) bw srv)) ! nat i = ?res"
      using pos by simp
    have n: "min room (int (length (b # usrbuf))) = ?n1 + 1" by simp
    show ?thesis
    proof (cases "i = srv_end srv")
      case True
      have "DIST ?e1 i = KERNELTALK_BUF - 1" unfolding True by (rule DIST_step_self) (rule Cons.prems)
      then have nlt: "\<not> DIST ?e1 i < ?n1" using Cons.prems(2) by simp
      have "?res = buffer ?srv1 ! nat i" by (subst IH) (simp only: nlt if_False)
      also have "\<dots> = b" using index_in_buffer [OF Cons.prems(3,4)] by (simp add: True)
      finally have "?res = b" .
      moreover have "0 \<le> ?n1" using pos by simp
      ultimately show ?thesis unfolding unfold n by (simp add: True DIST_self)
    next
      case False
      have d: "DIST (srv_end srv) i = DIST ?e1 i + 1"
        by (rule DIST_from_step) (use Cons.prems False in auto)
      have d1: "0 \<le> DIST ?e1 i" using DIST_bounds [OF r1 Cons.prems(5)] by simp
      have "nat (srv_end srv) \<noteq> nat i"
        using False Cons.prems(3,5) unfolding in_range_def by linarith
      then have same: "buffer ?srv1 ! nat i = buffer srv ! nat i" by simp
      have nth: "(b # usrbuf) ! nat (DIST ?e1 i + 1) = usrbuf ! nat (DIST ?e1 i)"
        using d1 by (simp add: nat_add_distrib)
      show ?thesis unfolding unfold n d nth IH same by simp
    qed
  next
    case False
    with Cons.prems d0 show ?thesis by simp
  qed
qed


lemma ring_index_zero: "in_range a \<Longrightarrow> a mod KERNELTALK_BUF = a"
  by (simp add: in_range_def)

lemma ring_at_DIST: "in_range a \<Longrightarrow> in_range e \<Longrightarrow> (a + DIST a e) mod KERNELTALK_BUF = e"
  using DIST_bounds [of a e] by (auto simp: ring_index) (auto simp: DIST_def in_range_def split: if_splits)

lemma read_loop_client_list: "client_list (snd (snd (read_loop cnt len usrbuf br srv))) = client_list srv"
  by (induction len arbitrary: usrbuf br srv) auto

lemma read_loop_spec:
  assumes "in_range (offset srv cnt)" "in_range (srv_end srv)"
  shows "read_loop cnt len usrbuf br srv =
     (usrbuf @ map (\<lambda>k. buffer srv ! nat ((offset srv cnt + int k) mod KERNELTALK_BUF))
                 [0..<nat (min (int len) (unread srv cnt))],
      br + min (int len) (unread srv cnt),
      srv\<lparr>offset := (offset srv)(cnt := (offset srv cnt + min (int len) (unread srv cnt)) mod KERNELTALK_BUF)\<rparr>)"
  using assms
proof (induction len arbitrary: usrbuf br srv)
  case 0
  have "0 \<le> unread srv cnt" unfolding unread_def using DIST_bounds 0 by blast
  then have "min (int 0) (unread srv cnt) = 0" by simp
  then show ?case using 0 by (simp add: ring_index_zero)
next
  case (Suc len)
  let ?off = "offset srv cnt"
  let ?u = "unread srv cnt"
  have u0: "0 \<le> ?u" unfolding unread_def using DIST_bounds Suc.prems by blast
  show ?case
  proof (cases "0 < ?u")
    case True
    let ?off1 = "(?off + 1) smod KERNELTALK_BUF"
    let ?srv1 = "srv\<lparr>offset := (offset srv)(cnt := ?off1)\<rparr>"
    let ?n1 = "min (int len) (?u - 1)"
    have off1: "?off1 = (?off + 1) mod KERNELTALK_BUF"
      using Suc.prems(1) by (simp add: smod_nonneg_eq_mod in_range_def)
    have r1: "in_range (offset ?srv1 cnt)" using step_in_range [OF Suc.prems(1)] by simp
    have u1: "unread ?srv1 cnt = ?u - 1"
      using DIST_step_offset [OF Suc.prems] True by (simp add: unread_def)
    have n: "min (int (Suc len)) ?u = ?n1 + 1" by simp
    have n1: "0 \<le> ?n1" using True by simp
    have IH: "read_loop cnt len (usrbuf @ [buffer srv ! nat ?off]) (br + 1) ?srv1 =
       ((usrbuf @ [buffer srv ! nat ?off]) @
           map (\<lambda>k. buffer srv ! nat ((?off1 + int k) mod KERNELTALK_BUF)) [0..<nat ?n1],
        br + 1 + ?n1,
        srv\<lparr>offset := (offset srv)(cnt := (?off1 + ?n1) mod KERNELTALK_BUF)\<rparr>)"
    proof -
      let ?A = "usrbuf @ [buffer srv ! nat ?off]"
      have raw: "read_loop cnt len ?A (br + 1) ?srv1 =
         (?A @ map (\<lambda>k. buffer ?srv1 ! nat ((offset ?srv1 cnt + int k) mod KERNELTALK_BUF))
                 [0..<nat (min (int len) (unread ?srv1 cnt))],
          br + 1 + min (int len) (unread ?srv1 cnt),
          ?srv1\<lparr>offset := (offset ?srv1)(cnt := (offset ?srv1 cnt + min (int len) (unread ?srv1 cnt)) mod KERNELTALK_BUF)\<rparr>)"
        by (rule Suc.IH) (use r1 Suc.prems(2) in simp_all)
      have b1: "buffer ?srv1 = buffer srv" by simp
      have o1: "offset ?srv1 cnt = ?off1" by simp
      have upd: "\<And>X. ?srv1\<lparr>offset := (offset ?srv1)(cnt := X)\<rparr> = srv\<lparr>offset := (offset srv)(cnt := X)\<rparr>"
        by simp
      show ?thesis using raw by (simp only: b1 o1 u1 upd)
    qed
    have idx: "(?off1 + k) mod KERNELTALK_BUF = (?off + (1 + k)) mod KERNELTALK_BUF" for k
    proof -
      have "((?off + 1) mod KERNELTALK_BUF + k) mod KERNELTALK_BUF = (?off + 1 + k) mod KERNELTALK_BUF"
        by (rule mod_add_left_eq)
      also have "?off + 1 + k = ?off + (1 + k)" by simp
      finally show ?thesis unfolding off1 .
    qed
    have m: "map (\<lambda>k. buffer srv ! nat ((?off + int k) mod KERNELTALK_BUF)) [0..<nat (?n1 + 1)] =
       buffer srv ! nat ?off #
         map (\<lambda>k. buffer srv ! nat ((?off1 + int k) mod KERNELTALK_BUF)) [0..<nat ?n1]"
    proof -
      let ?f = "\<lambda>k. buffer srv ! nat ((?off + int k) mod KERNELTALK_BUF)"
      have "nat (?n1 + 1) = Suc (nat ?n1)" using n1 by simp
      then have "map ?f [0..<nat (?n1 + 1)] = ?f 0 # map (\<lambda>k. ?f (Suc k)) [0..<nat ?n1]"
        by (simp only: map_upt_Suc)
      moreover have "?f 0 = buffer srv ! nat ?off"
        by (simp add: ring_index_zero [OF Suc.prems(1)])
      moreover have "?f (Suc k) = buffer srv ! nat ((?off1 + int k) mod KERNELTALK_BUF)" for k
        using idx [of "int k"] by simp
      ultimately show ?thesis by simp
    qed
    have step: "read_loop cnt (Suc len) usrbuf br srv =
        read_loop cnt len (usrbuf @ [buffer srv ! nat ?off]) (br + 1) ?srv1"
      using True by (simp add: unread_def)
    have fin: "(?off1 + ?n1) mod KERNELTALK_BUF = (?off + (?n1 + 1)) mod KERNELTALK_BUF"
      using idx [of ?n1] by (simp add: add.commute)
    show ?thesis unfolding step IH n m fin by (simp add: fun_upd_def)
  next
    case False
    with u0 have z: "?u = 0" by simp
    then have "min (int (Suc len)) ?u = 0" by simp
    then show ?thesis using z Suc.prems by (simp add: ring_index_zero unread_def)
  qed
qed


lemma server_ok_ex_srv: "server_ok ex_srv"
  by (simp add: server_ok_def ex_srv_def ex_mem_def in_range_def KERNELTALK_BUF_def)

lemma server_ok_ex_full: "server_ok ex_full"
  by (simp add: server_ok_def ex_full_def ex_mem_def in_range_def KERNELTALK_BUF_def)

subsection \<open>Calls that cannot make progress\<close>

text \<open>
  Claim C7. A non-blocking read by a client whose unread count is zero, and a non-blocking
  write when \<open>room_to_write\<close> is zero, fail with \<^verbatim>\<open>-EAGAIN\<close>. No byte reaches user
  memory and the server returned is the server given: \<^verbatim>\<open>end\<close>, the buffer and every
  client offset are as before the call.
\<close>

theorem would_block_atomic:
  "(unread srv cnt = 0 \<longrightarrow>
      kerneltalk_read True signal cnt len srv = (Failed EAGAIN, [], srv)) \<and>
   (room_to_write srv = 0 \<longrightarrow>
      kerneltalk_write True signal usrbuf srv = (Failed EAGAIN, srv))"
  by (simp add: kerneltalk_read_def kerneltalk_write_def unread_def)

theorem would_block_atomic_witness:
  "unread ex_full 12 = 0 \<and> room_to_write ex_full = 0 \<and>
   kerneltalk_read True False 12 7 ex_full = (Failed EAGAIN, [], ex_full) \<and>
   kerneltalk_write True False [1, 2, 3] ex_full = (Failed EAGAIN, ex_full)"
  using would_block_atomic [of ex_full 12 False 7 "[1, 2, 3]"]
  by (simp add: unread_def room_to_write_def blocking_offset_def DIST_def KERNELTALK_BUF_def
      ex_full_def smod_int_alt_def)

text \<open>
  Claim C10. With \<^verbatim>\<open>O_NONBLOCK\<close> set, a read of length 0 by a client with nothing unread
  and a write of no bytes with no room fail with \<^verbatim>\<open>-EAGAIN\<close>; they do not return 0. The
  availability test comes first: the same calls return 0 as soon as there is data,
  respectively room.
\<close>

theorem zero_length_would_block:
  "(unread srv cnt = 0 \<longrightarrow> fst (kerneltalk_read True signal cnt 0 srv) = Failed EAGAIN) \<and>
   (unread srv cnt \<noteq> 0 \<longrightarrow> fst (kerneltalk_read True signal cnt 0 srv) = Returned 0) \<and>
   (room_to_write srv = 0 \<longrightarrow> fst (kerneltalk_write True signal [] srv) = Failed EAGAIN) \<and>
   (room_to_write srv \<noteq> 0 \<longrightarrow> fst (kerneltalk_write True signal [] srv) = Returned 0)"
  by (simp add: kerneltalk_read_def kerneltalk_write_def unread_def)

theorem zero_length_would_block_witness:
  "unread ex_full 12 = 0 \<and> fst (kerneltalk_read True False 12 0 ex_full) = Failed EAGAIN \<and>
   unread ex_full 11 \<noteq> 0 \<and> fst (kerneltalk_read True False 11 0 ex_full) = Returned 0 \<and>
   room_to_write ex_full = 0 \<and> fst (kerneltalk_write True False [] ex_full) = Failed EAGAIN \<and>
   room_to_write ex_srv \<noteq> 0 \<and> fst (kerneltalk_write True False [] ex_srv) = Returned 0"
  using zero_length_would_block [of ex_full 12 False] zero_length_would_block [of ex_full 11 False]
    zero_length_would_block [of ex_srv 11 False]
  by (simp add: unread_def room_to_write_def blocking_offset_def DIST_def KERNELTALK_BUF_def
      ex_full_def ex_srv_def smod_int_alt_def)

subsection \<open>The slowest client\<close>

text \<open>
  Claim C6. On a well-formed server \<open>blocking_offset\<close> is \<^verbatim>\<open>end\<close> when there is no
  client. Otherwise it is the offset of a client whose unread count is the largest, and
  that client is the first such one in the iteration order of the client list. The
  unread count \<^verbatim>\<open>DIST(offset, end)\<close> of a client is \<open>(end - offset) mod KERNELTALK_BUF\<close>.
\<close>

theorem slowest_offset_definition:
  assumes "server_ok srv"
  shows "(client_list srv = [] \<longrightarrow> blocking_offset srv = srv_end srv) \<and>
         (client_list srv \<noteq> [] \<longrightarrow>
            (\<exists>i. first_max srv (client_list srv) i \<and>
                 blocking_offset srv = offset srv (client_list srv ! i))) \<and>
         (\<forall>c\<in>set (client_list srv).
            unread srv c = (srv_end srv - offset srv c) mod KERNELTALK_BUF)"
proof (intro conjI impI ballI)
  fix c assume "c \<in> set (client_list srv)"
  with assms have "in_range (offset srv c)" by (rule server_ok_offset)
  then show "unread srv c = (srv_end srv - offset srv c) mod KERNELTALK_BUF"
    unfolding unread_def using server_ok_end [OF assms] by (rule DIST_mod)
next
  assume "client_list srv = []"
  then show "blocking_offset srv = srv_end srv" by (simp add: blocking_offset_def)
next
  assume ne: "client_list srv \<noteq> []"
  from blocking_offset_cases [OF assms]
  show "\<exists>i. first_max srv (client_list srv) i \<and> blocking_offset srv = offset srv (client_list srv ! i)"
  proof
    assume z: "(\<forall>c\<in>set (client_list srv). unread srv c = 0) \<and> blocking_offset srv = srv_end srv"
    from ne have hd: "client_list srv ! 0 \<in> set (client_list srv)" by simp
    have "first_max srv (client_list srv) 0"
      using z ne by (simp add: first_max_def)
    moreover have "offset srv (client_list srv ! 0) = srv_end srv"
      using z hd unread_zero_iff [OF assms hd] by blast
    ultimately show ?thesis using z by auto
  next
    assume "\<exists>i. first_max srv (client_list srv) i \<and> 0 < unread srv (client_list srv ! i) \<and>
              blocking_offset srv = offset srv (client_list srv ! i)"
    then show ?thesis by blast
  qed
qed

theorem slowest_offset_definition_witness:
  "server_ok ex_srv \<and> client_list ex_srv \<noteq> [] \<and> first_max ex_srv (client_list ex_srv) 1 \<and>
   blocking_offset ex_srv = 3 \<and> offset ex_srv (client_list ex_srv ! 1) = 3"
  using slowest_offset_definition [OF server_ok_ex_srv] server_ok_ex_srv
  by (simp add: first_max_def unread_def blocking_offset_def DIST_def KERNELTALK_BUF_def
      ex_srv_def less_Suc_eq)

subsection \<open>What write does\<close>

lemma kerneltalk_write_blocked:
  "room_to_write srv = 0 \<Longrightarrow>
   kerneltalk_write nonblock signal usrbuf srv =
     (if nonblock then Failed EAGAIN else if signal then Failed ERESTARTSYS else Asleep, srv)"
  by (simp add: kerneltalk_write_def)

lemma kerneltalk_write_room:
  assumes "server_ok srv" and "room_to_write srv \<noteq> 0"
  shows "kerneltalk_write nonblock signal usrbuf srv =
       (Returned (min (room_to_write srv) (int (length usrbuf))),
        snd (write_loop (room_to_write srv) usrbuf 0 srv))"
proof -
  have "0 \<le> room_to_write srv" using room_to_write_bounds [OF assms(1)] by simp
  then have "fst (write_loop (room_to_write srv) usrbuf 0 srv) =
      min (room_to_write srv) (int (length usrbuf))"
    by (simp add: write_loop_count)
  then show ?thesis
    using assms(2) by (auto simp: kerneltalk_write_def Let_def split: prod.splits)
qed

lemma write_loop_room_buffer:
  assumes "server_ok srv" and "in_range i"
  shows "buffer (snd (write_loop (room_to_write srv) usrbuf 0 srv)) ! nat i =
       (if DIST (srv_end srv) i < min (room_to_write srv) (int (length usrbuf))
        then usrbuf ! nat (DIST (srv_end srv) i) else buffer srv ! nat i)"
proof (rule write_loop_buffer)
  show "0 \<le> room_to_write srv" "room_to_write srv < KERNELTALK_BUF"
    using room_to_write_bounds [OF assms(1)] by auto
  show "in_range (srv_end srv)" using assms(1) by (rule server_ok_end)
  show "int (length (buffer srv)) = KERNELTALK_BUF" using assms(1) by (simp add: server_ok_def)
  show "in_range i" by (rule assms(2))
qed

lemma write_loop_room_end:
  assumes "server_ok srv"
  shows "srv_end (snd (write_loop (room_to_write srv) usrbuf 0 srv)) =
     (srv_end srv + min (room_to_write srv) (int (length usrbuf))) mod KERNELTALK_BUF"
  using room_to_write_bounds [OF assms] server_ok_end [OF assms] by (intro write_loop_end) auto

text \<open>
  Claim C3. On a well-formed server with \<open>room_to_write srv > 0\<close>, a write returns
  \<open>n = min room (length usrbuf)\<close>. The slots \<open>end, end + 1, \<dots>, end + n - 1\<close>
  (modulo \<open>KERNELTALK_BUF\<close>) receive the first \<open>n\<close> bytes of \<open>usrbuf\<close> in order,
  every other slot keeps its byte, \<^verbatim>\<open>end\<close> advances by \<open>n\<close> modulo
  \<open>KERNELTALK_BUF\<close>, and the client offsets and the client list are unchanged.
\<close>

theorem write_postcondition:
  assumes "server_ok srv" and "0 < room_to_write srv"
  shows "\<exists>n srv'. kerneltalk_write nonblock signal usrbuf srv = (Returned n, srv') \<and>
           n = min (room_to_write srv) (int (length usrbuf)) \<and>
           (\<forall>k<nat n. buffer srv' ! nat ((srv_end srv + int k) mod KERNELTALK_BUF) = usrbuf ! k) \<and>
           (\<forall>i. in_range i \<and> n \<le> DIST (srv_end srv) i \<longrightarrow> buffer srv' ! nat i = buffer srv ! nat i) \<and>
           length (buffer srv') = length (buffer srv) \<and>
           srv_end srv' = (srv_end srv + n) mod KERNELTALK_BUF \<and>
           offset srv' = offset srv \<and> client_list srv' = client_list srv"
proof -
  let ?n = "min (room_to_write srv) (int (length usrbuf))"
  let ?e = "srv_end srv"
  let ?srv' = "snd (write_loop (room_to_write srv) usrbuf 0 srv)"
  from assms(2) have "room_to_write srv \<noteq> 0" by simp
  with assms(1) have call: "kerneltalk_write nonblock signal usrbuf srv = (Returned ?n, ?srv')"
    by (rule kerneltalk_write_room)
  have buf: "buffer ?srv' ! nat i =
       (if DIST ?e i < ?n then usrbuf ! nat (DIST ?e i) else buffer srv ! nat i)"
    if "in_range i" for i
    using assms(1) that by (rule write_loop_room_buffer)
  have e: "in_range ?e" using assms(1) by (rule server_ok_end)
  have room: "room_to_write srv < KERNELTALK_BUF"
    using room_to_write_bounds [OF assms(1)] by auto
  have written: "buffer ?srv' ! nat ((?e + int k) mod KERNELTALK_BUF) = usrbuf ! k"
    if "k < nat ?n" for k
  proof -
    from that room have k: "0 \<le> int k" "int k < KERNELTALK_BUF" "int k < ?n" by auto
    have r: "in_range ((?e + int k) mod KERNELTALK_BUF)"
      using e k(1,2) by (rule ring_index_in_range)
    have "DIST ?e ((?e + int k) mod KERNELTALK_BUF) = int k"
      using DIST_ring_index [OF e e k(1,2)] by (simp add: DIST_self)
    with buf [OF r] k(3) show ?thesis by simp
  qed
  have kept: "buffer ?srv' ! nat i = buffer srv ! nat i"
    if "in_range i \<and> ?n \<le> DIST ?e i" for i
  proof -
    from that have "\<not> DIST ?e i < ?n" by linarith
    then show ?thesis using that by (subst buf) (simp_all only: if_False)
  qed
  show ?thesis
    using call written kept write_loop_room_end [OF assms(1), of usrbuf]
    by (intro exI [of _ ?n] exI [of _ ?srv'])
      (simp add: write_loop_length write_loop_offset write_loop_client_list)
qed

theorem write_postcondition_witness:
  "server_ok ex_srv \<and> 0 < room_to_write ex_srv \<and>
   (\<exists>n srv'. kerneltalk_write False False [7, 8, 9] ex_srv = (Returned n, srv') \<and>
           n = min (room_to_write ex_srv) (int (length [7, 8, 9 :: byte])) \<and>
           (\<forall>k<nat n. buffer srv' ! nat ((srv_end ex_srv + int k) mod KERNELTALK_BUF) = [7, 8, 9] ! k) \<and>
           (\<forall>i. in_range i \<and> n \<le> DIST (srv_end ex_srv) i \<longrightarrow> buffer srv' ! nat i = buffer ex_srv ! nat i) \<and>
           length (buffer srv') = length (buffer ex_srv) \<and>
           srv_end srv' = (srv_end ex_srv + n) mod KERNELTALK_BUF \<and>
           offset srv' = offset ex_srv \<and> client_list srv' = client_list ex_srv) \<and>
   kerneltalk_write False False [7, 8, 9] ex_srv =
     (Returned 3, ex_srv\<lparr>buffer := (buffer ex_srv)[5 := 7, 6 := 8, 7 := 9], srv_end := 8\<rparr>)"
proof -
  have room: "room_to_write ex_srv = 2045"
    by (simp add: room_to_write_def blocking_offset_def DIST_def KERNELTALK_BUF_def ex_srv_def
        smod_int_alt_def)
  have run: "kerneltalk_write False False [7, 8, 9] ex_srv =
     (Returned 3, ex_srv\<lparr>buffer := (buffer ex_srv)[5 := 7, 6 := 8, 7 := 9], srv_end := 8\<rparr>)"
    by (simp add: kerneltalk_write_def room) (simp add: ex_srv_def KERNELTALK_BUF_def smod_int_alt_def)
  have pos: "0 < room_to_write ex_srv" by (simp add: room)
  show ?thesis
    using write_postcondition [OF server_ok_ex_srv pos, of False False "[7, 8, 9]"]
      server_ok_ex_srv pos run by simp
qed

subsection \<open>What read does\<close>

lemma kerneltalk_read_data:
  assumes "in_range (offset srv cnt)" "in_range (srv_end srv)" "unread srv cnt \<noteq> 0"
  shows "kerneltalk_read nonblock signal cnt len srv =
     (Returned (min (int len) (unread srv cnt)),
      map (\<lambda>k. buffer srv ! nat ((offset srv cnt + int k) mod KERNELTALK_BUF))
          [0..<nat (min (int len) (unread srv cnt))],
      srv\<lparr>offset := (offset srv)(cnt := (offset srv cnt + min (int len) (unread srv cnt)) mod KERNELTALK_BUF)\<rparr>)"
  using assms(3) by (simp add: kerneltalk_read_def read_loop_spec [OF assms(1,2)] unread_def)

text \<open>
  Claim C4. On a well-formed server, a read by a client with \<open>unread > 0\<close> returns
  \<open>n = min unread len\<close>, hands over the \<open>n\<close> bytes stored from the client's offset
  on, and advances that offset by \<open>n\<close> modulo \<open>KERNELTALK_BUF\<close>. Nothing else changes:
  \<^verbatim>\<open>end\<close>, the buffer, the client list and the offset of every other client.
\<close>

theorem read_postcondition:
  assumes "server_ok srv" and "cnt \<in> set (client_list srv)" and "0 < unread srv cnt"
  shows "\<exists>n usrbuf srv'. kerneltalk_read nonblock signal cnt len srv = (Returned n, usrbuf, srv') \<and>
           n = min (unread srv cnt) (int len) \<and>
           usrbuf = map (\<lambda>k. buffer srv ! nat ((offset srv cnt + int k) mod KERNELTALK_BUF)) [0..<nat n] \<and>
           offset srv' cnt = (offset srv cnt + n) mod KERNELTALK_BUF \<and>
           (\<forall>c. c \<noteq> cnt \<longrightarrow> offset srv' c = offset srv c) \<and>
           srv_end srv' = srv_end srv \<and> buffer srv' = buffer srv \<and>
           client_list srv' = client_list srv"
proof -
  have "in_range (offset srv cnt)" using assms(1,2) by (rule server_ok_offset)
  moreover have "in_range (srv_end srv)" using assms(1) by (rule server_ok_end)
  moreover have "unread srv cnt \<noteq> 0" using assms(3) by simp
  ultimately show ?thesis
    by (simp add: kerneltalk_read_data min.commute)
qed


theorem read_postcondition_witness:
  "server_ok ex_srv \<and> 11 \<in> set (client_list ex_srv) \<and> 0 < unread ex_srv 11 \<and>
   (\<exists>n usrbuf srv'. kerneltalk_read True False 11 10 ex_srv = (Returned n, usrbuf, srv') \<and>
           n = min (unread ex_srv 11) (int 10) \<and>
           usrbuf = map (\<lambda>k. buffer ex_srv ! nat ((offset ex_srv 11 + int k) mod KERNELTALK_BUF)) [0..<nat n] \<and>
           offset srv' 11 = (offset ex_srv 11 + n) mod KERNELTALK_BUF \<and>
           (\<forall>c. c \<noteq> 11 \<longrightarrow> offset srv' c = offset ex_srv c) \<and>
           srv_end srv' = srv_end ex_srv \<and> buffer srv' = buffer ex_srv \<and>
           client_list srv' = client_list ex_srv) \<and>
   kerneltalk_read True False 11 10 ex_srv =
     (Returned 2, [10, 11], ex_srv\<lparr>offset := (offset ex_srv)(11 := 5)\<rparr>)"
proof -
  have cl: "11 \<in> set (client_list ex_srv)" by (simp add: ex_srv_def)
  have u: "unread ex_srv 11 = 2" by (simp add: unread_def DIST_def ex_srv_def)
  have pos: "0 < unread ex_srv 11" by (simp add: u)
  have run: "kerneltalk_read True False 11 10 ex_srv =
     (Returned 2, [10, 11], ex_srv\<lparr>offset := (offset ex_srv)(11 := 5)\<rparr>)"
    by (simp add: kerneltalk_read_def read_loop_spec server_ok_offset [OF server_ok_ex_srv cl]
        server_ok_end [OF server_ok_ex_srv] u)
      (simp add: ex_srv_def ex_mem_def DIST_def KERNELTALK_BUF_def upt_rec)
  show ?thesis
    using read_postcondition [OF server_ok_ex_srv cl pos, of True False 10]
      server_ok_ex_srv cl pos run by simp
qed

subsection \<open>Well-formedness is kept\<close>

lemma server_ok_create_server:
  "int (length mem) = KERNELTALK_BUF \<Longrightarrow> server_ok (create_server mem offs)"
  using KERNELTALK_BUF_gt1 by (simp add: server_ok_def create_server_def in_range_def)

lemma server_ok_create_client:
  assumes "server_ok srv" "cnt \<notin> set (client_list srv)"
  shows "server_ok (snd (create_client (Some cnt) srv))"
  using assms by (auto simp: server_ok_def create_client_def list_all_iff)

lemma server_ok_flush:
  assumes "server_ok srv" "kerneltalk_flush f_count cnt srv = Some srv'"
  shows "server_ok srv'"
  using assms
  by (auto simp: server_ok_def kerneltalk_flush_def check_free_server_def list_all_iff
      split: if_splits dest: notin_set_remove1)

lemma kerneltalk_read_none:
  "unread srv cnt = 0 \<Longrightarrow> snd (kerneltalk_read nonblock signal cnt len srv) = ([], srv)"
  by (simp add: kerneltalk_read_def unread_def)

lemma server_ok_read:
  assumes "server_ok srv" "cnt \<in> set (client_list srv)"
  shows "server_ok (snd (snd (kerneltalk_read nonblock signal cnt len srv)))"
proof (cases "unread srv cnt = 0")
  case True
  then show ?thesis using assms(1) by (simp add: kerneltalk_read_none)
next
  case False
  have a: "in_range (offset srv cnt)" using assms by (rule server_ok_offset)
  have e: "in_range (srv_end srv)" using assms(1) by (rule server_ok_end)
  have u: "0 \<le> unread srv cnt \<and> unread srv cnt < KERNELTALK_BUF" using assms by (rule unread_bounds)
  have "in_range ((offset srv cnt + min (int len) (unread srv cnt)) mod KERNELTALK_BUF)"
    using a u by (intro ring_index_in_range) auto
  then show ?thesis
    using assms(1) by (auto simp: kerneltalk_read_data [OF a e False] server_ok_def list_all_iff)
qed

lemma server_ok_write:
  assumes "server_ok srv"
  shows "server_ok (snd (kerneltalk_write nonblock signal usrbuf srv))"
proof (cases "room_to_write srv = 0")
  case True
  then show ?thesis using assms by (simp add: kerneltalk_write_blocked)
next
  case False
  let ?srv' = "snd (write_loop (room_to_write srv) usrbuf 0 srv)"
  have r: "0 \<le> room_to_write srv \<and> room_to_write srv \<le> KERNELTALK_BUF - 1"
    using assms by (rule room_to_write_bounds)
  have "in_range (srv_end ?srv')"
    unfolding write_loop_room_end [OF assms]
    using server_ok_end [OF assms] r by (intro ring_index_in_range) auto
  then have "server_ok ?srv'"
    using assms by (simp add: server_ok_def write_loop_length write_loop_offset write_loop_client_list)
  then show ?thesis by (simp add: kerneltalk_write_room [OF assms False])
qed

subsection \<open>The unread bytes of a client under write and read\<close>

lemma DIST_advance_end:
  assumes "in_range a" "in_range e" "0 \<le> n" "DIST a e + n < KERNELTALK_BUF"
  shows "DIST a ((e + n) mod KERNELTALK_BUF) = DIST a e + n"
proof -
  have "n < KERNELTALK_BUF" using assms DIST_bounds [of a e] by linarith
  with assms show ?thesis
    by (auto simp: ring_index) (auto simp: in_range_def DIST_def split: if_splits)
qed

lemma DIST_advance_offset:
  assumes "in_range a" "in_range e" "0 \<le> n" "n \<le> DIST a e"
  shows "DIST ((a + n) mod KERNELTALK_BUF) e = DIST a e - n"
proof -
  have "n < KERNELTALK_BUF" using assms DIST_bounds [of a e] by linarith
  with assms show ?thesis
    by (auto simp: ring_index) (auto simp: in_range_def DIST_def split: if_splits)
qed

lemma length_take_min:
  "length (take (nat (min r (int (length xs)))) xs) = nat (min r (int (length xs)))"
  by (cases "r \<le> int (length xs)") (auto simp: min_def)

lemma wrote_room:
  assumes "server_ok srv" "room_to_write srv \<noteq> 0"
  shows "wrote (fst (kerneltalk_write nonblock signal usrbuf srv)) usrbuf =
         take (nat (min (room_to_write srv) (int (length usrbuf)))) usrbuf"
  by (simp add: kerneltalk_write_room [OF assms])

lemma length_wrote:
  assumes "server_ok srv"
  shows "int (length (wrote (fst (kerneltalk_write nonblock signal usrbuf srv)) usrbuf)) =
         (if room_to_write srv = 0 then 0 else min (room_to_write srv) (int (length usrbuf)))"
proof (cases "room_to_write srv = 0")
  case True
  then show ?thesis by (simp add: kerneltalk_write_blocked)
next
  case False
  have "0 \<le> room_to_write srv" using room_to_write_bounds [OF assms] by simp
  then show ?thesis
    using False by (simp add: wrote_room [OF assms False] length_take_min del: length_take)
qed

lemma unread_write:
  assumes "server_ok srv" "c \<in> set (client_list srv)"
  shows "unread (snd (kerneltalk_write nonblock signal usrbuf srv)) c =
         unread srv c + int (length (wrote (fst (kerneltalk_write nonblock signal usrbuf srv)) usrbuf))"
proof (cases "room_to_write srv = 0")
  case True
  then show ?thesis by (simp add: kerneltalk_write_blocked)
next
  case False
  let ?n = "min (room_to_write srv) (int (length usrbuf))"
  have a: "in_range (offset srv c)" using assms by (rule server_ok_offset)
  have e: "in_range (srv_end srv)" using assms(1) by (rule server_ok_end)
  have n0: "0 \<le> ?n" using room_to_write_bounds [OF assms(1)] by simp
  have "?n \<le> KERNELTALK_BUF - 1 - unread srv c" using room_to_write_le [OF assms] by simp
  then have fit: "DIST (offset srv c) (srv_end srv) + ?n < KERNELTALK_BUF" by (simp add: unread_def)
  have "unread (snd (kerneltalk_write nonblock signal usrbuf srv)) c =
        DIST (offset srv c) ((srv_end srv + ?n) mod KERNELTALK_BUF)"
    by (simp add: kerneltalk_write_room [OF assms(1) False] unread_def write_loop_offset
        write_loop_room_end [OF assms(1)])
  also have "\<dots> = unread srv c + ?n"
    unfolding unread_def using a e n0 fit by (rule DIST_advance_end)
  finally show ?thesis using False by (simp add: length_wrote [OF assms(1)])
qed

lemma unread_bytes_write:
  assumes "server_ok srv" "c \<in> set (client_list srv)"
  shows "unread_bytes (snd (kerneltalk_write nonblock signal usrbuf srv)) c =
         unread_bytes srv c @ wrote (fst (kerneltalk_write nonblock signal usrbuf srv)) usrbuf"
proof (cases "room_to_write srv = 0")
  case True
  then show ?thesis by (simp add: kerneltalk_write_blocked)
next
  case False
  let ?n = "min (room_to_write srv) (int (length usrbuf))"
  let ?srv' = "snd (kerneltalk_write nonblock signal usrbuf srv)"
  let ?a = "offset srv c"
  let ?u = "unread srv c"
  have a: "in_range ?a" using assms by (rule server_ok_offset)
  have e: "in_range (srv_end srv)" using assms(1) by (rule server_ok_end)
  have n0: "0 \<le> ?n" using room_to_write_bounds [OF assms(1)] by simp
  have u0: "0 \<le> ?u" using unread_bounds [OF assms] by simp
  have fit: "?n \<le> KERNELTALK_BUF - 1 - ?u" using room_to_write_le [OF assms] by simp
  have w: "wrote (fst (kerneltalk_write nonblock signal usrbuf srv)) usrbuf = take (nat ?n) usrbuf"
    using assms(1) False by (rule wrote_room)
  have lw: "length (take (nat ?n) usrbuf) = nat ?n" by (rule length_take_min)
  have u': "unread ?srv' c = ?u + ?n"
    using unread_write [OF assms, of nonblock signal usrbuf] length_wrote [OF assms(1), of nonblock signal usrbuf]
      False by simp
  have off': "offset ?srv' c = ?a"
    by (simp add: kerneltalk_write_room [OF assms(1) False] write_loop_offset)
  have buf': "buffer ?srv' ! nat i =
      (if DIST (srv_end srv) i < ?n then usrbuf ! nat (DIST (srv_end srv) i) else buffer srv ! nat i)"
    if "in_range i" for i
    using write_loop_room_buffer [OF assms(1) that, of usrbuf]
    by (simp add: kerneltalk_write_room [OF assms(1) False])
  show ?thesis
  unfolding w
  proof (rule nth_equalityI)
    show "length (unread_bytes ?srv' c) = length (unread_bytes srv c @ take (nat ?n) usrbuf)"
      using u0 n0 by (simp add: u' nat_add_distrib length_take_min del: length_take)
  next
    fix k assume "k < length (unread_bytes ?srv' c)"
    then have k: "0 \<le> int k" "int k < ?u + ?n" by (simp_all add: u')
    with fit have kN: "int k < KERNELTALK_BUF" by linarith
    let ?i = "(?a + int k) mod KERNELTALK_BUF"
    have i: "in_range ?i" using a k(1) kN by (rule ring_index_in_range)
    have d: "DIST (srv_end srv) ?i =
        (if ?u \<le> int k then int k - ?u else KERNELTALK_BUF + int k - ?u)"
      unfolding unread_def using a e k(1) kN by (rule DIST_ring_index)
    have lhs: "unread_bytes ?srv' c ! k = buffer ?srv' ! nat ?i"
      using k by (simp add: unread_bytes_def u' off')
    show "unread_bytes ?srv' c ! k = (unread_bytes srv c @ take (nat ?n) usrbuf) ! k"
    proof (cases "int k < ?u")
      case True
      with d have "DIST (srv_end srv) ?i = KERNELTALK_BUF + int k - ?u" by simp
      then have "\<not> DIST (srv_end srv) ?i < ?n" using fit k(1) by linarith
      then have "buffer ?srv' ! nat ?i = buffer srv ! nat ?i"
        by (subst buf' [OF i]) (simp only: if_False)
      moreover have "k < nat ?u" using True by linarith
      then have "(unread_bytes srv c @ take (nat ?n) usrbuf) ! k = buffer srv ! nat ?i"
        by (simp add: nth_append unread_bytes_def)
      ultimately show ?thesis using lhs by simp
    next
      case False
      then have dk: "DIST (srv_end srv) ?i = int k - ?u" using d by simp
      have lt: "int k - ?u < ?n" using k(2) by linarith
      have "buffer ?srv' ! nat ?i = usrbuf ! nat (int k - ?u)"
        by (subst buf' [OF i]) (simp only: dk lt if_True)
      moreover have "nat (int k - ?u) = k - nat ?u" using u0 by simp
      moreover have "k - nat ?u < nat ?n" using False k(2) u0 by linarith
      moreover have "\<not> k < nat ?u" using False u0 by linarith
      ultimately show ?thesis using lhs by (simp add: nth_append)
    qed
  qed
qed

lemma read_loop_buffer: "buffer (snd (snd (read_loop cnt len usrbuf br srv))) = buffer srv"
  by (induction len arbitrary: usrbuf br srv) auto

lemma read_loop_end: "srv_end (snd (snd (read_loop cnt len usrbuf br srv))) = srv_end srv"
  by (induction len arbitrary: usrbuf br srv) auto

lemma read_loop_offset_other:
  "d \<noteq> cnt \<Longrightarrow> offset (snd (snd (read_loop cnt len usrbuf br srv))) d = offset srv d"
  by (induction len arbitrary: usrbuf br srv) auto

lemma kerneltalk_read_snd:
  "snd (snd (kerneltalk_read nonblock signal cnt len srv)) =
     (if unread srv cnt = 0 then srv else snd (snd (read_loop cnt len [] 0 srv)))"
  by (simp add: kerneltalk_read_def unread_def split: prod.splits)

lemma unread_bytes_read_other:
  assumes "d \<noteq> cnt"
  shows "unread_bytes (snd (snd (kerneltalk_read nonblock signal cnt len srv))) d = unread_bytes srv d"
  using assms
  by (simp add: kerneltalk_read_snd unread_bytes_def unread_def read_loop_buffer read_loop_end
      read_loop_offset_other)

lemma unread_read_other:
  assumes "d \<noteq> cnt"
  shows "unread (snd (snd (kerneltalk_read nonblock signal cnt len srv))) d = unread srv d"
  using assms
  by (simp add: kerneltalk_read_snd unread_def read_loop_end read_loop_offset_other)

lemma client_list_read:
  "client_list (snd (snd (kerneltalk_read nonblock signal cnt len srv))) = client_list srv"
  by (simp add: kerneltalk_read_snd read_loop_client_list)

lemma unread_bytes_empty: "unread srv cnt = 0 \<Longrightarrow> unread_bytes srv cnt = []"
  by (simp add: unread_bytes_def)

lemma nat_min_int: "nat (min (int m) u) = min m (nat u)"
  by (cases "int m \<le> u") (auto simp: min_def)

lemma take_upt_min: "take m [0..<n] = [0..<min m n]"
  by (cases "m \<le> n") simp_all

lemma kerneltalk_read_out:
  assumes "server_ok srv" "cnt \<in> set (client_list srv)"
  shows "fst (snd (kerneltalk_read nonblock signal cnt len srv)) = take len (unread_bytes srv cnt)"
proof (cases "unread srv cnt = 0")
  case True
  then show ?thesis by (simp add: kerneltalk_read_none unread_bytes_empty)
next
  case False
  have a: "in_range (offset srv cnt)" using assms by (rule server_ok_offset)
  have e: "in_range (srv_end srv)" using assms(1) by (rule server_ok_end)
  show ?thesis
    by (simp add: kerneltalk_read_data [OF a e False] unread_bytes_def take_map nat_min_int
        take_upt_min del: take_upt)
qed

lemma unread_read_self:
  assumes "server_ok srv" "cnt \<in> set (client_list srv)"
  shows "unread (snd (snd (kerneltalk_read nonblock signal cnt len srv))) cnt =
         unread srv cnt - min (int len) (unread srv cnt)"
proof (cases "unread srv cnt = 0")
  case True
  then show ?thesis by (simp add: kerneltalk_read_none)
next
  case False
  have a: "in_range (offset srv cnt)" using assms by (rule server_ok_offset)
  have e: "in_range (srv_end srv)" using assms(1) by (rule server_ok_end)
  have u0: "0 \<le> unread srv cnt" using unread_bounds [OF assms] by simp
  have "DIST ((offset srv cnt + min (int len) (unread srv cnt)) mod KERNELTALK_BUF) (srv_end srv) =
        DIST (offset srv cnt) (srv_end srv) - min (int len) (unread srv cnt)"
    using a e by (rule DIST_advance_offset) (use u0 in \<open>simp_all add: unread_def\<close>)
  then show ?thesis
    by (simp add: kerneltalk_read_data [OF a e False]) (simp add: unread_def)
qed

lemma unread_bytes_read_self:
  assumes "server_ok srv" "cnt \<in> set (client_list srv)"
  shows "unread_bytes (snd (snd (kerneltalk_read nonblock signal cnt len srv))) cnt =
         drop len (unread_bytes srv cnt)"
proof (cases "unread srv cnt = 0")
  case True
  then show ?thesis by (simp add: kerneltalk_read_none unread_bytes_empty)
next
  case False
  let ?srv' = "snd (snd (kerneltalk_read nonblock signal cnt len srv))"
  let ?a = "offset srv cnt"
  let ?u = "unread srv cnt"
  let ?n = "min (int len) ?u"
  have a: "in_range ?a" using assms by (rule server_ok_offset)
  have e: "in_range (srv_end srv)" using assms(1) by (rule server_ok_end)
  have u0: "0 \<le> ?u" using unread_bounds [OF assms] by simp
  have u': "unread ?srv' cnt = ?u - ?n" using assms by (rule unread_read_self)
  have off': "offset ?srv' cnt = (?a + ?n) mod KERNELTALK_BUF"
    by (simp add: kerneltalk_read_data [OF a e False])
  have buf': "buffer ?srv' = buffer srv"
    by (simp add: kerneltalk_read_data [OF a e False])
  show ?thesis
  proof (rule nth_equalityI)
    show "length (unread_bytes ?srv' cnt) = length (drop len (unread_bytes srv cnt))"
      using u0 by (simp add: u')
  next
    fix k assume "k < length (unread_bytes ?srv' cnt)"
    then have k: "int k < ?u - ?n" by (simp add: u')
    then have n: "?n = int len" by linarith
    have idx: "((?a + ?n) mod KERNELTALK_BUF + int k) mod KERNELTALK_BUF =
        (?a + int (len + k)) mod KERNELTALK_BUF"
      unfolding n by (simp add: mod_add_left_eq add.assoc)
    have "len + k < nat ?u" using k n by linarith
    then have "drop len (unread_bytes srv cnt) ! k =
        buffer srv ! nat ((?a + int (len + k)) mod KERNELTALK_BUF)"
      by (simp add: unread_bytes_def)
    moreover have "k < nat (?u - int len)" using k n by linarith
    then have "unread_bytes ?srv' cnt ! k =
        buffer srv ! nat (((?a + ?n) mod KERNELTALK_BUF + int k) mod KERNELTALK_BUF)"
      unfolding unread_bytes_def u' off' buf' n by simp
    ultimately show "unread_bytes ?srv' cnt ! k = drop len (unread_bytes srv cnt) ! k"
      unfolding idx by simp
  qed
qed

subsection \<open>The byte stream of a client over a run\<close>

lemma client_list_create_client:
  "client_list (snd (create_client (Some cnt) srv)) = cnt # client_list srv"
  by (simp add: create_client_def)

lemma unread_create_client_self: "unread (snd (create_client (Some cnt) srv)) cnt = 0"
  by (simp add: create_client_def unread_def DIST_self)

lemma unread_bytes_create_client_other:
  "d \<noteq> cnt \<Longrightarrow> unread_bytes (snd (create_client (Some cnt) srv)) d = unread_bytes srv d"
  by (simp add: create_client_def unread_bytes_def unread_def)

lemma unread_bytes_flush:
  "kerneltalk_flush f_count cnt srv = Some srv' \<Longrightarrow> unread_bytes srv' d = unread_bytes srv d"
  by (auto simp: kerneltalk_flush_def check_free_server_def unread_bytes_def unread_def
      split: if_splits)

lemma client_list_flush:
  "kerneltalk_flush f_count cnt srv = Some srv' \<Longrightarrow> d \<in> set (client_list srv) \<Longrightarrow> d \<noteq> cnt \<Longrightarrow>
   d \<in> set (client_list srv')"
  by (auto simp: kerneltalk_flush_def check_free_server_def split: if_splits)

lemma kerneltalk_write_snd:
  "snd (kerneltalk_write nonblock signal usrbuf srv) =
     (if room_to_write srv = 0 then srv else snd (write_loop (room_to_write srv) usrbuf 0 srv))"
  by (simp add: kerneltalk_write_def Let_def split: prod.splits)

lemma client_list_write:
  "client_list (snd (kerneltalk_write nonblock signal usrbuf srv)) = client_list srv"
  by (simp add: kerneltalk_write_snd write_loop_client_list)

lemma exec_server_ok:
  assumes "server_ok srv" "allowed x srv" "exec x srv = Some srv'"
  shows "server_ok srv'"
proof (cases x)
  case (Join cnt)
  with assms show ?thesis using server_ok_create_client [of srv cnt] by auto
next
  case (Leave cnt)
  with assms show ?thesis using server_ok_flush [of srv 1 cnt srv'] by auto
next
  case (Read nonblock signal cnt len)
  with assms show ?thesis using server_ok_read [of srv cnt nonblock signal len] by auto
next
  case (Write nonblock signal usrbuf)
  with assms show ?thesis using server_ok_write [of srv nonblock signal usrbuf] by auto
qed

lemma exec_stream:
  assumes "server_ok srv" "c \<in> set (client_list srv)" "allowed x srv" "x \<noteq> Leave c"
    and "exec x srv = Some srv'"
  shows "c \<in> set (client_list srv') \<and>
         unread_bytes srv c @ stored x srv = handed c x srv @ unread_bytes srv' c"
proof (cases x)
  case (Join cnt)
  with assms have "cnt \<noteq> c" by auto
  with Join assms(2,5) show ?thesis
    by (auto simp: client_list_create_client unread_bytes_create_client_other)
next
  case (Leave cnt)
  with assms have "c \<noteq> cnt" "kerneltalk_flush 1 cnt srv = Some srv'" by auto
  with Leave assms(2) show ?thesis
    by (simp add: unread_bytes_flush client_list_flush)
next
  case (Read nonblock signal cnt len)
  show ?thesis
  proof (cases "cnt = c")
    case True
    with Read assms show ?thesis
      by (auto simp: client_list_read kerneltalk_read_out unread_bytes_read_self)
  next
    case False
    then have "c \<noteq> cnt" by simp
    with Read assms show ?thesis
      by (auto simp: client_list_read unread_bytes_read_other)
  qed
next
  case (Write nonblock signal usrbuf)
  with assms show ?thesis
    by (auto simp: client_list_write unread_bytes_write)
qed

lemma run_server_ok:
  "server_ok srv \<Longrightarrow> run ops srv = Some srv' \<Longrightarrow> server_ok srv'"
proof (induction ops arbitrary: srv)
  case Nil
  then show ?case by simp
next
  case (Cons x xs)
  from Cons.prems(2) obtain srv1 where s: "allowed x srv" "exec x srv = Some srv1" "run xs srv1 = Some srv'"
    by (auto split: if_splits option.splits)
  from Cons.prems(1) s(1,2) have "server_ok srv1" by (rule exec_server_ok)
  then show ?case using s(3) by (rule Cons.IH)
qed

lemma run_stream:
  assumes "server_ok srv" "c \<in> set (client_list srv)" "Leave c \<notin> set ops" "run ops srv = Some srv'"
  shows "c \<in> set (client_list srv') \<and>
         unread_bytes srv c @ accepted ops srv = delivered c ops srv @ unread_bytes srv' c"
  using assms
proof (induction ops arbitrary: srv)
  case Nil
  then show ?case by simp
next
  case (Cons x xs)
  from Cons.prems(4) obtain srv1 where s: "allowed x srv" "exec x srv = Some srv1" "run xs srv1 = Some srv'"
    by (auto split: if_splits option.splits)
  from Cons.prems(3) have x: "x \<noteq> Leave c" "Leave c \<notin> set xs" by auto
  from Cons.prems(1) s(1,2) have ok1: "server_ok srv1" by (rule exec_server_ok)
  from exec_stream [OF Cons.prems(1,2) s(1) x(1) s(2)]
  have c1: "c \<in> set (client_list srv1)"
    and st: "unread_bytes srv c @ stored x srv = handed c x srv @ unread_bytes srv1 c" by auto
  from Cons.IH [OF ok1 c1 x(2) s(3)]
  have c': "c \<in> set (client_list srv')"
    and IH: "unread_bytes srv1 c @ accepted xs srv1 = delivered c xs srv1 @ unread_bytes srv' c"
    by auto
  have "unread_bytes srv c @ accepted (x # xs) srv =
        (unread_bytes srv c @ stored x srv) @ accepted xs srv1"
    by (simp add: s(2))
  also have "\<dots> = handed c x srv @ (unread_bytes srv1 c @ accepted xs srv1)"
    by (simp add: st)
  also have "\<dots> = delivered c (x # xs) srv @ unread_bytes srv' c"
    by (simp add: IH s(2))
  finally show ?case using c' by simp
qed

subsection \<open>No unread byte is overwritten\<close>

lemma pred_index:
  assumes "in_range a"
  shows "(a + KERNELTALK_BUF - 1) smod KERNELTALK_BUF = (a - 1) mod KERNELTALK_BUF"
proof -
  have "(a - 1) mod KERNELTALK_BUF = (if a = 0 then KERNELTALK_BUF - 1 else a - 1)"
  proof (cases "a = 0")
    case True
    then show ?thesis using KERNELTALK_BUF_gt1 by (simp add: zmod_minus1)
  next
    case False
    with assms show ?thesis by (simp add: in_range_def)
  qed
  then show ?thesis by (simp only: pred_cases [OF assms])
qed

lemma room_to_write_spec:
  "server_ok srv \<Longrightarrow>
   room_to_write srv = DIST (srv_end srv) ((blocking_offset srv - 1) mod KERNELTALK_BUF)"
  by (simp add: room_to_write_def pred_index blocking_offset_in_range)

lemma end_advance:
  assumes "server_ok srv"
  shows "DIST (srv_end srv) (srv_end (snd (kerneltalk_write nonblock signal usrbuf srv))) =
         int (length (wrote (fst (kerneltalk_write nonblock signal usrbuf srv)) usrbuf))"
proof (cases "room_to_write srv = 0")
  case True
  then show ?thesis by (simp add: kerneltalk_write_blocked DIST_self)
next
  case False
  let ?n = "min (room_to_write srv) (int (length usrbuf))"
  have e: "in_range (srv_end srv)" using assms by (rule server_ok_end)
  have n: "0 \<le> ?n" "?n < KERNELTALK_BUF" using room_to_write_bounds [OF assms] by auto
  have "DIST (srv_end srv) ((srv_end srv + ?n) mod KERNELTALK_BUF) = ?n"
    using DIST_ring_index [OF e e n] n(1) by (simp add: DIST_self)
  then show ?thesis
    using False room_to_write_bounds [OF assms]
    by (simp add: kerneltalk_write_room [OF assms False] write_loop_room_end [OF assms]
        length_wrote [OF assms, of nonblock signal usrbuf, simplified kerneltalk_write_room [OF assms False]]
        length_take_min del: length_take)
qed

text \<open>
  Claim C1. Take any sequence of join, leave, read and write calls on a newly created
  server, and any write call in the state it reaches. The write advances \<^verbatim>\<open>end\<close> by
  at most the distance from \<^verbatim>\<open>end\<close> to \<open>(blocking_offset - 1) mod KERNELTALK_BUF\<close>.
  For every client on the list, the bytes it has not read are still in place after the
  write, followed by the bytes just stored, and \<^verbatim>\<open>end\<close> has not caught up with its
  offset.
\<close>

theorem no_overwrite:
  assumes "int (length mem) = KERNELTALK_BUF"
    and "run ops (create_server mem offs) = Some srv"
    and "kerneltalk_write nonblock signal usrbuf srv = (r, srv')"
  shows "DIST (srv_end srv) (srv_end srv')
           \<le> DIST (srv_end srv) ((blocking_offset srv - 1) mod KERNELTALK_BUF) \<and>
         (\<forall>c\<in>set (client_list srv).
            unread_bytes srv' c = unread_bytes srv c @ wrote r usrbuf \<and>
            unread srv' c = unread srv c + int (length (wrote r usrbuf)) \<and>
            unread srv' c < KERNELTALK_BUF)"
proof -
  have "server_ok (create_server mem offs)" using assms(1) by (rule server_ok_create_server)
  then have ok: "server_ok srv" using assms(2) by (rule run_server_ok)
  have r: "r = fst (kerneltalk_write nonblock signal usrbuf srv)"
    and s: "srv' = snd (kerneltalk_write nonblock signal usrbuf srv)"
    by (simp_all add: assms(3))
  have ok': "server_ok srv'" unfolding s using ok by (rule server_ok_write)
  have "int (length (wrote r usrbuf)) \<le> room_to_write srv"
    unfolding r using room_to_write_bounds [OF ok] by (simp add: length_wrote [OF ok])
  then have "DIST (srv_end srv) (srv_end srv') \<le> room_to_write srv"
    unfolding r s by (simp add: end_advance [OF ok])
  then have first: "DIST (srv_end srv) (srv_end srv')
           \<le> DIST (srv_end srv) ((blocking_offset srv - 1) mod KERNELTALK_BUF)"
    by (simp add: room_to_write_spec [OF ok])
  have second: "unread_bytes srv' c = unread_bytes srv c @ wrote r usrbuf \<and>
            unread srv' c = unread srv c + int (length (wrote r usrbuf)) \<and>
            unread srv' c < KERNELTALK_BUF" if "c \<in> set (client_list srv)" for c
  proof -
    have "c \<in> set (client_list srv')" using that unfolding s by (simp add: client_list_write)
    with ok' have "unread srv' c < KERNELTALK_BUF" using unread_bounds by blast
    then show ?thesis
      unfolding r s using unread_bytes_write [OF ok that] unread_write [OF ok that] by simp
  qed
  from first second show ?thesis by blast
qed

lemmas ex_eval = KERNELTALK_BUF_def DIST_def room_to_write_def blocking_offset_def
  kerneltalk_write_def kerneltalk_read_def create_client_def create_server_def
  kerneltalk_flush_def check_free_server_def smod_int_alt_def unread_def

lemma run_ex_ops: "run ex_ops (create_server ex_mem (\<lambda>_. 0)) = Some ex_joined"
  by (simp add: ex_ops_def ex_joined_def ex_eval)

lemma server_ok_ex_joined: "server_ok ex_joined"
  by (simp add: server_ok_def ex_joined_def ex_mem_def in_range_def KERNELTALK_BUF_def)

lemma write_ex_joined:
  "kerneltalk_write True False [7, 8, 9] ex_joined =
     (Returned 3, ex_joined\<lparr>buffer := (buffer ex_joined)[2 := 7, 3 := 8, 4 := 9], srv_end := 5\<rparr>)"
  by (simp add: ex_joined_def ex_eval)

theorem no_overwrite_witness:
  "int (length ex_mem) = KERNELTALK_BUF \<and>
   run ex_ops (create_server ex_mem (\<lambda>_. 0)) = Some ex_joined \<and>
   kerneltalk_write True False [7, 8, 9] ex_joined =
     (Returned 3, ex_joined\<lparr>buffer := (buffer ex_joined)[2 := 7, 3 := 8, 4 := 9], srv_end := 5\<rparr>) \<and>
   unread_bytes ex_joined 11 = [10, 11] \<and>
   unread_bytes (ex_joined\<lparr>buffer := (buffer ex_joined)[2 := 7, 3 := 8, 4 := 9], srv_end := 5\<rparr>) 11
     = [10, 11, 7, 8, 9] \<and>
   unread_bytes (ex_joined\<lparr>buffer := (buffer ex_joined)[2 := 7, 3 := 8, 4 := 9], srv_end := 5\<rparr>) 12
     = [7, 8, 9]"
proof -
  have len: "int (length ex_mem) = KERNELTALK_BUF" by (simp add: ex_mem_def KERNELTALK_BUF_def)
  have u11: "unread_bytes ex_joined 11 = [10, 11]"
    by (simp add: unread_bytes_def unread_def DIST_def ex_joined_def ex_mem_def KERNELTALK_BUF_def upt_rec)
  have u12: "unread_bytes ex_joined 12 = []"
    by (simp add: unread_bytes_def unread_def DIST_def ex_joined_def)
  show ?thesis
    using no_overwrite [OF len run_ex_ops write_ex_joined] len run_ex_ops write_ex_joined u11 u12
    by (simp add: ex_joined_def)
qed

subsection \<open>A client receives what was written after it joined\<close>


lemma delivered_writes: "delivered c (map (Write nonblock signal) Bs) srv = []"
  by (induction Bs arbitrary: srv) auto

lemma joined_stream:
  assumes "server_ok srv0" and "c \<notin> set (client_list srv0)"
    and "Leave c \<notin> set ops"
    and "run (Join c # ops) srv0 = Some srv1"
  shows "server_ok srv1 \<and> c \<in> set (client_list srv1) \<and>
         accepted (Join c # ops) srv0 = delivered c (Join c # ops) srv0 @ unread_bytes srv1 c"
proof -
  let ?sj = "snd (create_client (Some c) srv0)"
  have okj: "server_ok ?sj" using assms(1,2) by (rule server_ok_create_client)
  have cj: "c \<in> set (client_list ?sj)" by (simp add: client_list_create_client)
  have runj: "run ops ?sj = Some srv1" using assms(2,4) by simp
  have "unread_bytes ?sj c = []"
    by (rule unread_bytes_empty) (rule unread_create_client_self)
  with run_stream [OF okj cj assms(3) runj] run_server_ok [OF okj runj]
  show ?thesis by simp
qed

lemma read_loop_numeral:
  "read_loop cnt (numeral k) usrbuf bytes_read srv =
     (if DIST (offset srv cnt) (srv_end srv) > 0
      then read_loop cnt (pred_numeral k) (usrbuf @ [buffer srv ! nat (offset srv cnt)]) (bytes_read + 1)
             (srv\<lparr>offset := (offset srv)(cnt := (offset srv cnt + 1) smod KERNELTALK_BUF)\<rparr>)
      else (usrbuf, bytes_read, srv))"
  by (simp add: numeral_eq_Suc)

lemma read_loop_one:
  "read_loop cnt 1 usrbuf bytes_read srv =
     (if DIST (offset srv cnt) (srv_end srv) > 0
      then (usrbuf @ [buffer srv ! nat (offset srv cnt)], bytes_read + 1,
             srv\<lparr>offset := (offset srv)(cnt := (offset srv cnt + 1) smod KERNELTALK_BUF)\<rparr>)
      else (usrbuf, bytes_read, srv))"
  unfolding One_nat_def by simp

lemma run_ex_writes: "run (Join 13 # map (Write True False) ex_Bs) ex_srv = Some ex_written"
  by (simp add: ex_Bs_def ex_srv_def ex_written_def ex_eval)

lemma accepted_ex_writes: "accepted (Join 13 # map (Write True False) ex_Bs) ex_srv = concat ex_Bs"
  by (simp add: ex_Bs_def ex_srv_def ex_eval)

lemma room_after_write:
  assumes "server_ok srv"
  shows "room_to_write srv - int (length (wrote (fst (kerneltalk_write nonblock signal usrbuf srv)) usrbuf))
         \<le> room_to_write (snd (kerneltalk_write nonblock signal usrbuf srv))"
proof -
  let ?srv' = "snd (kerneltalk_write nonblock signal usrbuf srv)"
  let ?n = "int (length (wrote (fst (kerneltalk_write nonblock signal usrbuf srv)) usrbuf))"
  have ok': "server_ok ?srv'" using assms by (rule server_ok_write)
  have cl: "client_list ?srv' = client_list srv" by (rule client_list_write)
  have "DIST (blocking_offset ?srv') (srv_end ?srv') \<le> DIST (blocking_offset srv) (srv_end srv) + ?n"
    using blocking_offset_cases [OF ok']
  proof
    assume "(\<forall>c\<in>set (client_list ?srv'). unread ?srv' c = 0) \<and> blocking_offset ?srv' = srv_end ?srv'"
    then have "DIST (blocking_offset ?srv') (srv_end ?srv') = 0" by (simp add: DIST_self)
    moreover have "0 \<le> DIST (blocking_offset srv) (srv_end srv)"
      using DIST_bounds [OF blocking_offset_in_range [OF assms] server_ok_end [OF assms]] by simp
    ultimately show ?thesis by simp
  next
    assume "\<exists>i. first_max ?srv' (client_list ?srv') i \<and> 0 < unread ?srv' (client_list ?srv' ! i) \<and>
              blocking_offset ?srv' = offset ?srv' (client_list ?srv' ! i)"
    then obtain i where i: "i < length (client_list srv)"
      "blocking_offset ?srv' = offset ?srv' (client_list srv ! i)"
      by (auto simp: first_max_def cl)
    let ?c = "client_list srv ! i"
    from i(1) have c: "?c \<in> set (client_list srv)" by simp
    have "DIST (blocking_offset ?srv') (srv_end ?srv') = unread ?srv' ?c"
      by (simp add: i(2) unread_def)
    also have "\<dots> = unread srv ?c + ?n" using assms c by (rule unread_write)
    also have "\<dots> \<le> DIST (blocking_offset srv) (srv_end srv) + ?n"
      using blocking_offset_max [OF assms c] by simp
    finally show ?thesis .
  qed
  then show ?thesis by (simp add: room_to_write_eq [OF assms] room_to_write_eq [OF ok'])
qed

text \<open>Writes whose total length fits the room are all stored in full.\<close>

lemma accepted_complete:
  "server_ok srv \<Longrightarrow> int (length (concat Bs)) \<le> room_to_write srv \<Longrightarrow>
   accepted (map (Write nonblock signal) Bs) srv = concat Bs"
proof (induction Bs arbitrary: srv)
  case Nil
  then show ?case by simp
next
  case (Cons B Bs)
  let ?kw = "kerneltalk_write nonblock signal B srv"
  have fit: "int (length B) + int (length (concat Bs)) \<le> room_to_write srv"
    using Cons.prems(2) by simp
  have st: "wrote (fst ?kw) B = B"
  proof (cases "room_to_write srv = 0")
    case True
    with fit have "length B = 0" by linarith
    then have "B = []" by simp
    with True show ?thesis by (simp add: kerneltalk_write_blocked)
  next
    case False
    from fit have "min (room_to_write srv) (int (length B)) = int (length B)" by simp
    then show ?thesis by (simp add: wrote_room [OF Cons.prems(1) False])
  qed
  have ok': "server_ok (snd ?kw)" using Cons.prems(1) by (rule server_ok_write)
  have "int (length (concat Bs)) \<le> room_to_write (snd ?kw)"
    using room_after_write [OF Cons.prems(1), of nonblock signal B] fit by (simp add: st)
  with ok' have "accepted (map (Write nonblock signal) Bs) (snd ?kw) = concat Bs"
    by (rule Cons.IH)
  then show ?case by (simp add: st)
qed








subsection \<open>A late joiner sees no history\<close>

text \<open>
  Claim C8. \<^verbatim>\<open>create_client\<close> sets the new client's offset to \<^verbatim>\<open>end\<close>, so its unread
  count is 0 whatever was written before. After any further calls in which the client
  received nothing, a read by it returns the first \<open>len\<close> of the bytes stored since
  it joined: none of the bytes written before the join.
\<close>

theorem late_joiner_isolation:
  assumes "server_ok srv0" and "c \<notin> set (client_list srv0)"
    and "Leave c \<notin> set ops"
    and "run (Join c # ops) srv0 = Some srv1"
    and "delivered c (Join c # ops) srv0 = []"
  shows "offset (snd (create_client (Some c) srv0)) c = srv_end srv0 \<and>
         unread (snd (create_client (Some c) srv0)) c = 0 \<and>
         fst (snd (kerneltalk_read nonblock signal c len srv1)) =
           take len (accepted (Join c # ops) srv0)"
proof -
  from joined_stream [OF assms(1-4)]
  have ok1: "server_ok srv1" and c1: "c \<in> set (client_list srv1)"
    and "accepted (Join c # ops) srv0 = delivered c (Join c # ops) srv0 @ unread_bytes srv1 c"
    by auto
  then have "unread_bytes srv1 c = accepted (Join c # ops) srv0"
    by (simp only: assms(5) append_Nil)
  then have "fst (snd (kerneltalk_read nonblock signal c len srv1)) =
           take len (accepted (Join c # ops) srv0)"
    by (simp add: kerneltalk_read_out [OF ok1 c1])
  moreover have "offset (snd (create_client (Some c) srv0)) c = srv_end srv0"
    by (simp add: create_client_def)
  ultimately show ?thesis by (simp add: unread_create_client_self)
qed

theorem late_joiner_isolation_witness:
  "server_ok ex_srv \<and> 13 \<notin> set (client_list ex_srv) \<and>
   Leave 13 \<notin> set (map (Write True False) ex_Bs) \<and>
   run (Join 13 # map (Write True False) ex_Bs) ex_srv = Some ex_written \<and>
   delivered 13 (Join 13 # map (Write True False) ex_Bs) ex_srv = [] \<and>
   unread_bytes ex_srv 11 = [10, 11] \<and>
   offset (snd (create_client (Some 13) ex_srv)) 13 = srv_end ex_srv \<and>
   unread (snd (create_client (Some 13) ex_srv)) 13 = 0 \<and>
   fst (snd (kerneltalk_read True False 13 2 ex_written)) = [7, 8]"
proof -
  have fresh: "13 \<notin> set (client_list ex_srv)" by (simp add: ex_srv_def)
  have stays: "Leave 13 \<notin> set (map (Write True False) ex_Bs)" by (simp add: ex_Bs_def)
  have none: "delivered 13 (Join 13 # map (Write True False) ex_Bs) ex_srv = []"
    by (simp add: delivered_writes)
  have old: "unread_bytes ex_srv 11 = [10, 11]"
    by (simp add: unread_bytes_def unread_def DIST_def ex_srv_def ex_mem_def KERNELTALK_BUF_def upt_rec)
  show ?thesis
    using late_joiner_isolation [OF server_ok_ex_srv fresh stays run_ex_writes none, of True False 2,
        unfolded accepted_ex_writes]
      server_ok_ex_srv fresh stays run_ex_writes none old
    by (simp add: ex_Bs_def)
qed

subsection \<open>Backpressure\<close>

lemma room_to_write_slowest:
  assumes "server_ok srv" and "s \<in> set (client_list srv)"
    and "\<forall>d\<in>set (client_list srv). unread srv d \<le> unread srv s"
  shows "room_to_write srv = KERNELTALK_BUF - 1 - unread srv s"
proof -
  have ge: "unread srv s \<le> DIST (blocking_offset srv) (srv_end srv)"
    using assms(1,2) by (rule blocking_offset_max)
  have le: "DIST (blocking_offset srv) (srv_end srv) \<le> unread srv s"
    using blocking_offset_cases [OF assms(1)]
  proof
    assume "(\<forall>c\<in>set (client_list srv). unread srv c = 0) \<and> blocking_offset srv = srv_end srv"
    then show ?thesis using unread_bounds [OF assms(1,2)] by (simp add: DIST_self)
  next
    assume "\<exists>i. first_max srv (client_list srv) i \<and> 0 < unread srv (client_list srv ! i) \<and>
              blocking_offset srv = offset srv (client_list srv ! i)"
    then obtain i where i: "i < length (client_list srv)"
      "blocking_offset srv = offset srv (client_list srv ! i)"
      by (auto simp: first_max_def)
    from i(1) have "client_list srv ! i \<in> set (client_list srv)" by simp
    with assms(3) have "unread srv (client_list srv ! i) \<le> unread srv s" by blast
    then show ?thesis by (simp add: i(2) unread_def)
  qed
  from ge le show ?thesis by (simp add: room_to_write_eq [OF assms(1)])
qed

lemma stalled_total:
  assumes "server_ok srv" and "s \<in> set (client_list srv)"
    and "Leave s \<notin> set ops" and "delivered s ops srv = []" and "run ops srv = Some srv'"
  shows "server_ok srv' \<and> s \<in> set (client_list srv') \<and>
         unread srv' s = unread srv s + int (length (accepted ops srv))"
proof -
  have ok': "server_ok srv'" using assms(1,5) by (rule run_server_ok)
  from run_stream [OF assms(1,2,3,5)]
  have s': "s \<in> set (client_list srv')"
    and "unread_bytes srv s @ accepted ops srv = delivered s ops srv @ unread_bytes srv' s" by auto
  then have "unread_bytes srv' s = unread_bytes srv s @ accepted ops srv"
    by (simp only: assms(4) append_Nil)
  then have "length (unread_bytes srv' s) = length (unread_bytes srv s) + length (accepted ops srv)"
    by simp
  then have "nat (unread srv' s) = nat (unread srv s) + length (accepted ops srv)"
    by simp
  then have "unread srv' s = unread srv s + int (length (accepted ops srv))"
    using unread_bounds [OF assms(1,2)] unread_bounds [OF ok' s'] by linarith
  with ok' s' show ?thesis by simp
qed

lemma room_after_read:
  assumes "server_ok srv" and "s \<in> set (client_list srv)"
    and "fst (kerneltalk_read nonblock signal s len srv) = Returned k"
    and "\<forall>d\<in>set (client_list srv). d \<noteq> s \<longrightarrow> unread srv d \<le> unread srv s - k"
  shows "room_to_write (snd (snd (kerneltalk_read nonblock signal s len srv))) = room_to_write srv + k"
proof -
  let ?srv' = "snd (snd (kerneltalk_read nonblock signal s len srv))"
  have a: "in_range (offset srv s)" using assms(1,2) by (rule server_ok_offset)
  have e: "in_range (srv_end srv)" using assms(1) by (rule server_ok_end)
  have u: "0 \<le> unread srv s" using unread_bounds [OF assms(1,2)] by simp
  have nz: "unread srv s \<noteq> 0"
    using assms(3) by (auto simp: kerneltalk_read_def unread_def split: if_splits)
  then have k: "k = min (int len) (unread srv s)"
    using assms(3) by (simp add: kerneltalk_read_data [OF a e])
  then have k0: "0 \<le> k" using u by simp
  have ok': "server_ok ?srv'" using assms(1,2) by (rule server_ok_read)
  have s': "s \<in> set (client_list ?srv')" using assms(2) by (simp add: client_list_read)
  have us: "unread ?srv' s = unread srv s - k"
    unfolding k using assms(1,2) by (rule unread_read_self)
  have before: "\<forall>d\<in>set (client_list srv). unread srv d \<le> unread srv s"
    using assms(4) k0 by force
  have after: "\<forall>d\<in>set (client_list ?srv'). unread ?srv' d \<le> unread ?srv' s"
  proof
    fix d assume "d \<in> set (client_list ?srv')"
    then have d: "d \<in> set (client_list srv)" by (simp add: client_list_read)
    show "unread ?srv' d \<le> unread ?srv' s"
    proof (cases "d = s")
      case True
      then show ?thesis by simp
    next
      case False
      with assms(4) d show ?thesis by (simp add: us unread_read_other)
    qed
  qed
  show ?thesis
    by (simp add: room_to_write_slowest [OF assms(1,2) before]
        room_to_write_slowest [OF ok' s' after] us)
qed

text \<open>
  Claim C5, amended. Let \<open>s\<close> be a client that receives nothing during a run (it never
  reads, or its reads fail). The bytes stored during the run number at most
  \<open>KERNELTALK_BUF - 1 - unread srv s\<close>, hence at most \<open>KERNELTALK_BUF - 1\<close>; when that
  many are stored, a non-blocking write fails with \<^verbatim>\<open>-EAGAIN\<close> and a blocking write
  sleeps, both without effect. When \<open>s\<close> then reads \<open>k\<close> bytes, \<open>room_to_write\<close>
  grows by exactly \<open>k\<close> provided no other client has more unread bytes than \<open>s\<close>
  has left.
\<close>

theorem backpressure:
  assumes "server_ok srv" and "s \<in> set (client_list srv)"
  shows "(\<forall>ops srv'. Leave s \<notin> set ops \<and> delivered s ops srv = [] \<and> run ops srv = Some srv' \<longrightarrow>
            int (length (accepted ops srv)) \<le> KERNELTALK_BUF - 1 - unread srv s \<and>
            (int (length (accepted ops srv)) = KERNELTALK_BUF - 1 - unread srv s \<longrightarrow>
               kerneltalk_write True signal usrbuf srv' = (Failed EAGAIN, srv') \<and>
               kerneltalk_write False False usrbuf srv' = (Asleep, srv'))) \<and>
         (\<forall>k. fst (kerneltalk_read nonblock signal' s len srv) = Returned k \<and>
              (\<forall>d\<in>set (client_list srv). d \<noteq> s \<longrightarrow> unread srv d \<le> unread srv s - k) \<longrightarrow>
              room_to_write (snd (snd (kerneltalk_read nonblock signal' s len srv))) =
                room_to_write srv + k)"
proof (intro conjI allI impI)
  fix ops srv'
  assume h: "Leave s \<notin> set ops \<and> delivered s ops srv = [] \<and> run ops srv = Some srv'"
  with stalled_total [OF assms, of ops srv']
  have ok': "server_ok srv'" and s': "s \<in> set (client_list srv')"
    and tot: "unread srv' s = unread srv s + int (length (accepted ops srv))" by auto
  from unread_bounds [OF ok' s'] tot
  show "int (length (accepted ops srv)) \<le> KERNELTALK_BUF - 1 - unread srv s" by simp
  assume "int (length (accepted ops srv)) = KERNELTALK_BUF - 1 - unread srv s"
  with tot have "unread srv' s = KERNELTALK_BUF - 1" by simp
  with room_to_write_le [OF ok' s'] room_to_write_bounds [OF ok']
  have full: "room_to_write srv' = 0" by simp
  then show "kerneltalk_write True signal usrbuf srv' = (Failed EAGAIN, srv')"
    by (simp add: kerneltalk_write_blocked)
  from full show "kerneltalk_write False False usrbuf srv' = (Asleep, srv')"
    by (simp add: kerneltalk_write_blocked)
next
  fix k
  assume "fst (kerneltalk_read nonblock signal' s len srv) = Returned k \<and>
              (\<forall>d\<in>set (client_list srv). d \<noteq> s \<longrightarrow> unread srv d \<le> unread srv s - k)"
  then show "room_to_write (snd (snd (kerneltalk_read nonblock signal' s len srv))) =
                room_to_write srv + k"
    using room_after_read [OF assms] by blast
qed

text \<open>
  Claim C5 as stated fails. In \<open>ex_lag\<close> client 11 has never read and has 5 unread
  bytes, client 12 has 4. Client 11 reads 3 bytes and \<open>room_to_write\<close> grows by 1.
\<close>

theorem backpressure_counterexample:
  "run ex_lag_ops (create_server ex_mem (\<lambda>_. 0)) = Some ex_lag \<and>
   client_list ex_lag = [12, 11] \<and>
   delivered 11 ex_lag_ops (create_server ex_mem (\<lambda>_. 0)) = [] \<and>
   fst (kerneltalk_read True False 11 3 ex_lag) = Returned 3 \<and>
   room_to_write ex_lag = 2042 \<and>
   room_to_write (snd (snd (kerneltalk_read True False 11 3 ex_lag))) = 2043 \<and>
   room_to_write (snd (snd (kerneltalk_read True False 11 3 ex_lag))) \<noteq> room_to_write ex_lag + 3"
  by (simp add: ex_lag_ops_def ex_lag_def ex_eval read_loop_numeral read_loop_one)

theorem backpressure_witness:
  "server_ok ex_srv \<and> 11 \<in> set (client_list ex_srv) \<and>
   Leave 11 \<notin> set ex_fill \<and> delivered 11 ex_fill ex_srv = [] \<and>
   run ex_fill ex_srv = Some (snd (kerneltalk_write True False (replicate 2045 9) ex_srv)) \<and>
   int (length (accepted ex_fill ex_srv)) = KERNELTALK_BUF - 1 - unread ex_srv 11 \<and>
   kerneltalk_write True False [1] (snd (kerneltalk_write True False (replicate 2045 9) ex_srv)) =
     (Failed EAGAIN, snd (kerneltalk_write True False (replicate 2045 9) ex_srv)) \<and>
   kerneltalk_write False False [1] (snd (kerneltalk_write True False (replicate 2045 9) ex_srv)) =
     (Asleep, snd (kerneltalk_write True False (replicate 2045 9) ex_srv)) \<and>
   fst (kerneltalk_read True False 11 1 ex_srv) = Returned 1 \<and>
   client_list ex_srv = [12, 11] \<and> unread ex_srv 12 \<le> unread ex_srv 11 - 1 \<and>
   room_to_write (snd (snd (kerneltalk_read True False 11 1 ex_srv))) = room_to_write ex_srv + 1"
proof -
  have cl: "11 \<in> set (client_list ex_srv)" by (simp add: ex_srv_def)
  have stays: "Leave 11 \<notin> set ex_fill" by (simp add: ex_fill_def)
  have none: "delivered 11 ex_fill ex_srv = []" by (simp add: ex_fill_def)
  have run: "run ex_fill ex_srv = Some (snd (kerneltalk_write True False (replicate 2045 9) ex_srv))"
    by (simp add: ex_fill_def)
  have room: "room_to_write ex_srv = 2045"
    by (simp add: room_to_write_def blocking_offset_def DIST_def KERNELTALK_BUF_def ex_srv_def
        smod_int_alt_def)
  have u: "unread ex_srv 11 = 2" "unread ex_srv 12 = 0"
    by (simp_all add: unread_def DIST_def ex_srv_def)
  have total: "int (length (accepted ex_fill ex_srv)) = KERNELTALK_BUF - 1 - unread ex_srv 11"
    using length_wrote [OF server_ok_ex_srv, of True False "replicate 2045 9"]
    by (simp add: ex_fill_def room u KERNELTALK_BUF_def)
  have rd: "fst (kerneltalk_read True False 11 1 ex_srv) = Returned 1"
    by (simp add: ex_srv_def ex_eval read_loop_one)
  have others: "\<forall>d\<in>set (client_list ex_srv). d \<noteq> 11 \<longrightarrow> unread ex_srv d \<le> unread ex_srv 11 - 1"
    using u by (simp add: ex_srv_def)
  show ?thesis
    using backpressure [OF server_ok_ex_srv cl, of False "[1]" True False 1]
      server_ok_ex_srv cl stays none run total rd others u
    by (simp add: ex_srv_def)
qed

subsection \<open>Lock order\<close>

text \<open>
  Claim C9 as stated fails. \<^verbatim>\<open>kerneltalk_write\<close> and \<^verbatim>\<open>kerneltalk_poll\<close> hold the client
  list lock and the buffer lock together, and both take the buffer lock first:
  \<^verbatim>\<open>room_to_write\<close> locks the client list inside \<^verbatim>\<open>down_write\<close> \<dots> \<^verbatim>\<open>up_write\<close>.
\<close>

theorem lock_order_counterexample:
  "nested [] (kerneltalk_write_locks True False ex_srv) = [(Buffer_lock, Client_list_lock)] \<and>
   nested [] kerneltalk_poll_locks = [(Buffer_lock, Client_list_lock)] \<and>
   \<not> documented_order (kerneltalk_write_locks True False ex_srv) \<and>
   \<not> documented_order kerneltalk_poll_locks"
  by (simp add: kerneltalk_write_locks_def kerneltalk_poll_locks_def room_to_write_locks_def
      documented_order_def)

text \<open>
  Claim C9, amended. On every path of write and poll, the only lock taken while another
  is held is the client-list lock inside the buffer lock. On every path of open and
  flush it is the client-list lock inside the server-list lock. Read never holds two
  locks. So the order of the code is: server-list lock before client-list lock, buffer
  lock before client-list lock.
\<close>

theorem lock_order:
  "set (nested [] (kerneltalk_write_locks nonblock signal srv)) = {(Buffer_lock, Client_list_lock)} \<and>
   set (nested [] kerneltalk_poll_locks) = {(Buffer_lock, Client_list_lock)} \<and>
   nested [] (kerneltalk_read_locks nonblock signal cnt srv) = [] \<and>
   set (nested [] (kerneltalk_open_locks got_server alloc srv)) \<subseteq> {(Server_list_lock, Client_list_lock)} \<and>
   set (nested [] (kerneltalk_flush_locks f_count cnt srv)) \<subseteq> {(Server_list_lock, Client_list_lock)}"
  by (simp add: kerneltalk_write_locks_def kerneltalk_poll_locks_def room_to_write_locks_def
      kerneltalk_read_locks_def kerneltalk_open_locks_def kerneltalk_flush_locks_def
      create_client_locks_def check_free_server_locks_def split: option.splits)

end
